theory Spec2Isabelle
  imports Complex_Main "HOL-Library.Multiset"
begin

section \<open>Node storage and the doubly linked List\<close>

text \<open>
  The map keeps every entry in one doubly linked \<open>List\<close> of heap nodes and its bucket
  table stores raw node pointers into that list. Several claims are about pointers that
  outlive the node they refer to, so the model keeps the store explicit: a node pointer is
  an address, the store maps an address to the node living there, and every read or write
  through a pointer says what happens when the pointer is null, refers to storage that was
  deallocated (or never allocated), or refers to a sentinel whose payload was never
  constructed.

  Names follow the source; a field or function whose name is an Isar keyword or ends in an
  underscore carries a prefix instead (\<open>l_head\<close> for \<open>head_\<close>, \<open>b_begin\<close> for
  \<open>Bucket::begin\<close>, \<open>n_next\<close> for \<open>Node::next\<close>).
\<close>

type_synonym addr = nat

datatype ptr = Null | Ptr addr

text \<open>
  Undefined behaviour and exceptions are values. The first five are undefined behaviour of
  the C++ program (the model stops there), the last two are C++ exceptions.
\<close>

datatype error =
    OutOfBounds       \<comment> \<open>\<open>std::vector::operator[]\<close> with an index that is not below \<open>size()\<close>\<close>
  | NullDeref         \<comment> \<open>access through a null node pointer\<close>
  | DanglingDeref     \<comment> \<open>access through a pointer to deallocated or never allocated storage\<close>
  | SentinelPayload   \<comment> \<open>read of the payload of a node whose payload was never constructed\<close>
  | UninitRead        \<comment> \<open>read of a \<open>prev\<close>/\<open>next\<close> field that was never written\<close>
  | KeyNotFound       \<comment> \<open>\<open>std::out_of_range("Key not found")\<close>\<close>
  | ConstructFailed   \<comment> \<open>an exception thrown by the constructor of the stored pair\<close>

definition err_bind :: "error + 'a \<Rightarrow> ('a \<Rightarrow> error + 'b) \<Rightarrow> error + 'b" where
  "err_bind r f = (case r of Inl e \<Rightarrow> Inl e | Inr x \<Rightarrow> f x)"

text \<open>
  \<open>struct Node { T value; Node* prev; Node* next; }\<close>. The list allocates raw storage
  and constructs only \<open>value\<close> in it, so each field starts out unwritten (\<open>None\<close>).
\<close>

record ('k, 'v) Node =
  n_value :: "('k \<times> 'v) option"
  n_prev :: "ptr option"
  n_next :: "ptr option"

definition raw_node :: "('k, 'v) Node" where
  "raw_node = \<lparr>n_value = None, n_prev = None, n_next = None\<rparr>"

text \<open>
  \<open>class List\<close>: \<open>head_\<close>, \<open>tail_\<close>, \<open>size_\<close> and the allocator. The allocator is
  modelled by the store it manages: \<open>store\<close> holds the nodes that are currently allocated
  and \<open>fresh\<close> is the address the next \<open>allocate\<close> returns. Addresses are handed out
  in increasing order and never again after \<open>deallocate\<close>, which is what the
  \<open>StackAllocator\<close> of this file does (its \<open>deallocate\<close> is empty and \<open>allocate\<close>
  only moves \<open>current_pos\<close> forward); allocation itself never fails in the model.
  \<open>size_t\<close> values are natural numbers; the one place where wrap-around can be reached
  with a realistic amount of memory, \<open>size_--\<close>, has it written out.
\<close>

record ('k, 'v) List =
  store :: "addr \<Rightarrow> ('k, 'v) Node option"
  fresh :: addr
  l_head :: ptr
  l_tail :: ptr
  l_size :: nat

definition size_max :: nat where
  "size_max = 2 ^ 64 - 1"

definition node_at :: "('k, 'v) List \<Rightarrow> ptr \<Rightarrow> error + ('k, 'v) Node" where
  "node_at l p =
     (case p of
        Null \<Rightarrow> Inl NullDeref
      | Ptr a \<Rightarrow> (case store l a of None \<Rightarrow> Inl DanglingDeref | Some n \<Rightarrow> Inr n))"

definition get_value :: "('k, 'v) List \<Rightarrow> ptr \<Rightarrow> error + ('k \<times> 'v)" where
  "get_value l p =
     err_bind (node_at l p)
       (\<lambda>n. case n_value n of None \<Rightarrow> Inl SentinelPayload | Some kv \<Rightarrow> Inr kv)"

definition get_next :: "('k, 'v) List \<Rightarrow> ptr \<Rightarrow> error + ptr" where
  "get_next l p =
     err_bind (node_at l p) (\<lambda>n. case n_next n of None \<Rightarrow> Inl UninitRead | Some q \<Rightarrow> Inr q)"

definition get_prev :: "('k, 'v) List \<Rightarrow> ptr \<Rightarrow> error + ptr" where
  "get_prev l p =
     err_bind (node_at l p) (\<lambda>n. case n_prev n of None \<Rightarrow> Inl UninitRead | Some q \<Rightarrow> Inr q)"

definition put_node :: "('k, 'v) List \<Rightarrow> ptr \<Rightarrow> (('k, 'v) Node \<Rightarrow> ('k, 'v) Node) \<Rightarrow>
    error + ('k, 'v) List" where
  "put_node l p f =
     (case p of
        Null \<Rightarrow> Inl NullDeref
      | Ptr a \<Rightarrow>
          (case store l a of
             None \<Rightarrow> Inl DanglingDeref
           | Some n \<Rightarrow> Inr (l\<lparr>store := (store l)(a \<mapsto> f n)\<rparr>)))"

definition set_next :: "('k, 'v) List \<Rightarrow> ptr \<Rightarrow> ptr \<Rightarrow> error + ('k, 'v) List" where
  "set_next l p q = put_node l p (\<lambda>n. n\<lparr>n_next := Some q\<rparr>)"

definition set_prev :: "('k, 'v) List \<Rightarrow> ptr \<Rightarrow> ptr \<Rightarrow> error + ('k, 'v) List" where
  "set_prev l p q = put_node l p (\<lambda>n. n\<lparr>n_prev := Some q\<rparr>)"

text \<open>\<open>NodeAllocTraits::allocate(alloc, 1)\<close> and \<open>deallocate(alloc, p, 1)\<close>.\<close>

definition allocate :: "('k, 'v) List \<Rightarrow> addr \<times> ('k, 'v) List" where
  "allocate l = (fresh l, l\<lparr>store := (store l)(fresh l \<mapsto> raw_node), fresh := Suc (fresh l)\<rparr>)"

definition deallocate :: "('k, 'v) List \<Rightarrow> addr \<Rightarrow> ('k, 'v) List" where
  "deallocate l a = l\<lparr>store := (store l)(a := None)\<rparr>"

text \<open>
  \<open>List(const Allocator&)\<close>: two raw sentinel nodes; only \<open>head_->next\<close> and
  \<open>tail_->prev\<close> are written.
\<close>

definition List_init :: "('k, 'v) List" where
  "List_init =
     \<lparr>store = (\<lambda>_. None)(0 \<mapsto> raw_node\<lparr>n_next := Some (Ptr 1)\<rparr>,
                            1 \<mapsto> raw_node\<lparr>n_prev := Some (Ptr 0)\<rparr>),
      fresh = 2, l_head = Ptr 0, l_tail = Ptr 1, l_size = 0\<rparr>"

text \<open>
  \<open>List(List&& other)\<close>: the new list takes the three fields, \<open>other\<close> is left with
  null sentinels and size 0. The result is (new list, \<open>other\<close> afterwards).
\<close>

definition List_move :: "('k, 'v) List \<Rightarrow> ('k, 'v) List \<times> ('k, 'v) List" where
  "List_move other = (other, other\<lparr>l_head := Null, l_tail := Null, l_size := 0\<rparr>)"

definition List_size :: "('k, 'v) List \<Rightarrow> nat" where
  "List_size l = l_size l"

definition List_empty :: "('k, 'v) List \<Rightarrow> bool" where
  "List_empty l = (l_size l = 0)"

text \<open>\<open>begin()\<close> reads \<open>head_->next\<close>; \<open>end()\<close> is \<open>tail_\<close> itself.\<close>

definition List_begin :: "('k, 'v) List \<Rightarrow> error + ptr" where
  "List_begin l = get_next l (l_head l)"

definition List_end :: "('k, 'v) List \<Rightarrow> ptr" where
  "List_end l = l_tail l"

text \<open>
  \<open>List::emplace(pos, args...)\<close>. \<open>ctor\<close> stands for the constructor of the stored
  pair run on \<open>args\<close>; it may throw. The node is allocated before the constructor runs
  and the source has no handler around it, so when the constructor throws the state that
  the caller sees still holds the allocated node.
\<close>

definition List_emplace :: "('k, 'v) List \<Rightarrow> ptr \<Rightarrow> ('a \<Rightarrow> error + ('k \<times> 'v)) \<Rightarrow> 'a \<Rightarrow>
    (error + ptr) \<times> ('k, 'v) List" where
  "List_emplace l pos ctor args =
     (let (a, l1) = allocate l; newNode = Ptr a in
      case ctor args of
        Inl e \<Rightarrow> (Inl e, l1)
      | Inr kv \<Rightarrow>
          (let l2 = l1\<lparr>store := (store l1)(a \<mapsto> raw_node\<lparr>n_value := Some kv\<rparr>)\<rparr>;
               next_node = pos
           in case get_prev l2 next_node of
                Inl e \<Rightarrow> (Inl e, l2)
              | Inr prev_node \<Rightarrow>
                  (case err_bind (set_next l2 newNode next_node) (\<lambda>l3.
                        err_bind (set_prev l3 newNode prev_node) (\<lambda>l4.
                        err_bind (set_next l4 prev_node newNode) (\<lambda>l5.
                        set_prev l5 next_node newNode))) of
                     Inl e \<Rightarrow> (Inl e, l2)
                   | Inr l6 \<Rightarrow> (Inr newNode, l6\<lparr>l_size := Suc (l_size l6)\<rparr>))))"

text \<open>
  \<open>List::erase(pos)\<close>: unlink, destroy the payload (which has to be a constructed one),
  deallocate; \<open>size_--\<close> wraps at zero.
\<close>

definition List_erase :: "('k, 'v) List \<Rightarrow> ptr \<Rightarrow> (error + ptr) \<times> ('k, 'v) List" where
  "List_erase l pos =
     (if pos = List_end l then (Inr (List_end l), l)
      else
        case err_bind (get_prev l pos) (\<lambda>prev_node.
             err_bind (get_next l pos) (\<lambda>next_node.
             err_bind (set_next l prev_node next_node) (\<lambda>l1.
             err_bind (set_prev l1 next_node prev_node) (\<lambda>l2.
             err_bind (get_value l2 pos) (\<lambda>_.
             Inr (next_node, l2)))))) of
          Inl e \<Rightarrow> (Inl e, l)
        | Inr (next_node, l2) \<Rightarrow>
            (Inr next_node,
             (deallocate l2 (case pos of Ptr a \<Rightarrow> a | Null \<Rightarrow> 0))
               \<lparr>l_size := (if l_size l2 = 0 then size_max else l_size l2 - 1)\<rparr>))"

text \<open>\<open>List::move_node(from, to)\<close>: the seven pointer statements in source order.\<close>

definition move_node :: "('k, 'v) List \<Rightarrow> ptr \<Rightarrow> ptr \<Rightarrow> (error + ptr) \<times> ('k, 'v) List" where
  "move_node l from to =
     (let node_to_move = from; target_pos = to in
      case err_bind (get_prev l node_to_move) (\<lambda>p.
           err_bind (get_next l node_to_move) (\<lambda>n.
           err_bind (set_next l p n) (\<lambda>l1.
           err_bind (get_next l1 node_to_move) (\<lambda>n'.
           err_bind (get_prev l1 node_to_move) (\<lambda>p'.
           err_bind (set_prev l1 n' p') (\<lambda>l2.
           err_bind (get_prev l2 target_pos) (\<lambda>prev_node.
           err_bind (set_next l2 prev_node node_to_move) (\<lambda>l3.
           err_bind (set_prev l3 target_pos node_to_move) (\<lambda>l4.
           err_bind (set_prev l4 node_to_move prev_node) (\<lambda>l5.
           set_next l5 node_to_move target_pos)))))))))) of
        Inl e \<Rightarrow> (Inl e, l)
      | Inr l6 \<Rightarrow> (Inr node_to_move, l6))"

text \<open>
  \<open>List::clear()\<close>. The loop follows \<open>next\<close> pointers until it meets \<open>tail_\<close>; on a
  store whose pointers form a cycle it never returns, which is the value \<open>None\<close>.
\<close>

partial_function (option) clear_loop :: "('k, 'v) List \<Rightarrow> ptr \<Rightarrow>
    (error + ('k, 'v) List) option" where
  [code]: "clear_loop l current =
     (if current = l_tail l then Some (Inr l)
      else
        case get_next l current of
          Inl e \<Rightarrow> Some (Inl e)
        | Inr next_node \<Rightarrow>
            (case get_value l current of
               Inl e \<Rightarrow> Some (Inl e)
             | Inr _ \<Rightarrow>
                 clear_loop (deallocate l (case current of Ptr a \<Rightarrow> a | Null \<Rightarrow> 0)) next_node))"

definition List_clear :: "('k, 'v) List \<Rightarrow> ((error + unit) \<times> ('k, 'v) List) option" where
  "List_clear l =
     (if l_head l = Null \<or> l_tail l = Null then Some (Inr (), l\<lparr>l_size := 0\<rparr>)
      else
        case get_next l (l_head l) of
          Inl e \<Rightarrow> Some (Inl e, l)
        | Inr first \<Rightarrow>
            (case clear_loop l first of
               None \<Rightarrow> None
             | Some (Inl e) \<Rightarrow> Some (Inl e, l)
             | Some (Inr l1) \<Rightarrow>
                 (case err_bind (set_next l1 (l_head l1) (l_tail l1)) (\<lambda>l2.
                       set_prev l2 (l_tail l2) (l_head l2)) of
                    Inl e \<Rightarrow> Some (Inl e, l1)
                  | Inr l3 \<Rightarrow> Some (Inr (), l3\<lparr>l_size := 0\<rparr>))))"

section \<open>UnorderedMap\<close>

text \<open>
  \<open>double\<close> values occur only as quotients of two sizes compared with \<open>1.0\<close>. They
  are modelled exactly (a rational, \<open>+inf\<close> or NaN); rounding of a \<open>size_t\<close> above
  \<open>2^53\<close> is not modelled.
\<close>

datatype dbl = Finite rat | PosInf | NaN

definition dbl_of_size :: "nat \<Rightarrow> dbl" where
  "dbl_of_size n = Finite (of_nat n)"

fun dbl_div :: "dbl \<Rightarrow> dbl \<Rightarrow> dbl" where
  "dbl_div (Finite a) (Finite b) =
     (if b = 0 then (if a = 0 then NaN else PosInf) else Finite (a / b))"
| "dbl_div _ _ = NaN"

fun dbl_gt :: "dbl \<Rightarrow> dbl \<Rightarrow> bool" where
  "dbl_gt (Finite a) (Finite b) = (b < a)"
| "dbl_gt PosInf (Finite b) = True"
| "dbl_gt _ _ = False"

fun size_of_dbl :: "dbl \<Rightarrow> nat" where
  "size_of_dbl (Finite q) = nat \<lfloor>q\<rfloor>"
| "size_of_dbl _ = 0"

record Bucket =
  b_begin :: ptr
  b_end :: ptr

record ('k, 'v) UnorderedMap =
  elements :: "('k, 'v) List"
  buckets :: "Bucket list"
  hasher :: "'k \<Rightarrow> nat"
  key_equal :: "'k \<Rightarrow> 'k \<Rightarrow> bool"

text \<open>\<open>buckets[i]\<close>, as a read and as a write; out of range is undefined behaviour.\<close>

definition bucket_at :: "Bucket list \<Rightarrow> nat \<Rightarrow> error + Bucket" where
  "bucket_at bs i = (if i < length bs then Inr (bs ! i) else Inl OutOfBounds)"

definition set_bucket :: "Bucket list \<Rightarrow> nat \<Rightarrow> Bucket \<Rightarrow> error + Bucket list" where
  "set_bucket bs i b = (if i < length bs then Inr (bs[i := b]) else Inl OutOfBounds)"

definition get_bucket_index :: "('k, 'v) UnorderedMap \<Rightarrow> 'k \<Rightarrow> nat" where
  "get_bucket_index m key =
     (if buckets m = [] then 0 else hasher m key mod length (buckets m))"

definition empty_buckets :: "('k, 'v) List \<Rightarrow> nat \<Rightarrow> Bucket list" where
  "empty_buckets l n = replicate n \<lparr>b_begin = List_end l, b_end = List_end l\<rparr>"

text \<open>\<open>explicit UnorderedMap(size_t bucket_count, hash, equal, alloc)\<close>.\<close>

definition UnorderedMap_init :: "nat \<Rightarrow> ('k \<Rightarrow> nat) \<Rightarrow> ('k \<Rightarrow> 'k \<Rightarrow> bool) \<Rightarrow>
    ('k, 'v) UnorderedMap" where
  "UnorderedMap_init bucket_count hash equal =
     (let l = List_init in
      \<lparr>elements = l, buckets = empty_buckets l bucket_count,
       hasher = hash, key_equal = equal\<rparr>)"

definition INIT_BUCKET_SIZE :: nat where
  "INIT_BUCKET_SIZE = 16"

text \<open>
  \<open>UnorderedMap(UnorderedMap&& other)\<close>: the list is moved with \<open>List(List&&)\<close>, the
  bucket vector with the vector's move constructor, which leaves \<open>other.buckets\<close> empty.
  The result is (new map, \<open>other\<close> afterwards).
\<close>

definition UnorderedMap_move :: "('k, 'v) UnorderedMap \<Rightarrow>
    ('k, 'v) UnorderedMap \<times> ('k, 'v) UnorderedMap" where
  "UnorderedMap_move other =
     (let (l, l_other) = List_move (elements other) in
      (other\<lparr>elements := l\<rparr>, other\<lparr>elements := l_other, buckets := []\<rparr>))"

definition UnorderedMap_size :: "('k, 'v) UnorderedMap \<Rightarrow> nat" where
  "UnorderedMap_size m = List_size (elements m)"

definition UnorderedMap_empty :: "('k, 'v) UnorderedMap \<Rightarrow> bool" where
  "UnorderedMap_empty m = List_empty (elements m)"

definition bucket_count :: "('k, 'v) UnorderedMap \<Rightarrow> nat" where
  "bucket_count m = length (buckets m)"

definition UnorderedMap_begin :: "('k, 'v) UnorderedMap \<Rightarrow> error + ptr" where
  "UnorderedMap_begin m = List_begin (elements m)"

definition UnorderedMap_end :: "('k, 'v) UnorderedMap \<Rightarrow> ptr" where
  "UnorderedMap_end m = List_end (elements m)"

definition load_factor :: "('k, 'v) UnorderedMap \<Rightarrow> dbl" where
  "load_factor m = dbl_div (dbl_of_size (UnorderedMap_size m)) (dbl_of_size (length (buckets m)))"

definition max_load_factor :: dbl where
  "max_load_factor = Finite 1"

definition UnorderedMap_clear :: "('k, 'v) UnorderedMap \<Rightarrow>
    ((error + unit) \<times> ('k, 'v) UnorderedMap) option" where
  "UnorderedMap_clear m =
     (case List_clear (elements m) of
        None \<Rightarrow> None
      | Some (Inl e, l) \<Rightarrow> Some (Inl e, m\<lparr>elements := l\<rparr>)
      | Some (Inr u, l) \<Rightarrow>
          Some (Inr (), m\<lparr>elements := l, buckets := empty_buckets l (length (buckets m))\<rparr>))"

subsection \<open>rehash\<close>

text \<open>
  The first loop of \<open>rehash\<close> walks the list and files every iterator under its new
  bucket index; \<open>new_size\<close> is positive whenever the loop is reached, and the index is
  below the length of \<open>bucket_iters\<close>.
\<close>

partial_function (option) group_loop :: "('k, 'v) List \<Rightarrow> ('k \<Rightarrow> nat) \<Rightarrow> nat \<Rightarrow> ptr \<Rightarrow>
    ptr list list \<Rightarrow> (error + ptr list list) option" where
  [code]: "group_loop l h new_size it bucket_iters =
     (if it = List_end l then Some (Inr bucket_iters)
      else
        case get_value l it of
          Inl e \<Rightarrow> Some (Inl e)
        | Inr kv \<Rightarrow>
            (case get_next l it of
               Inl e \<Rightarrow> Some (Inl e)
             | Inr it' \<Rightarrow>
                 group_loop l h new_size it'
                   (bucket_iters[h (fst kv) mod new_size :=
                      bucket_iters ! (h (fst kv) mod new_size) @ [it]])))"

text \<open>
  The inner loop over one group: \<open>if (old_it != current_pos) current_pos =
  move_node(old_it, current_pos); ++current_pos;\<close>
\<close>

fun place_group :: "('k, 'v) List \<Rightarrow> ptr \<Rightarrow> ptr list \<Rightarrow> error + (ptr \<times> ('k, 'v) List)" where
  "place_group l current_pos [] = Inr (current_pos, l)"
| "place_group l current_pos (old_it # rest) =
     (case (if old_it \<noteq> current_pos then move_node l old_it current_pos
            else (Inr current_pos, l)) of
        (Inl e, _) \<Rightarrow> Inl e
      | (Inr moved, l1) \<Rightarrow>
          (case get_next l1 moved of
             Inl e \<Rightarrow> Inl e
           | Inr current_pos' \<Rightarrow> place_group l1 current_pos' rest))"

text \<open>
  The outer loop over \<open>bucket_index\<close>: for a non-empty group \<open>begin\<close> is taken from
  \<open>current_pos\<close> before the group is placed and \<open>end\<close> from \<open>current_pos\<close> after it.
\<close>

fun place_all :: "('k, 'v) List \<Rightarrow> Bucket list \<Rightarrow> ptr \<Rightarrow> nat \<Rightarrow> ptr list list \<Rightarrow>
    error + (Bucket list \<times> ('k, 'v) List)" where
  "place_all l bs current_pos bucket_index [] = Inr (bs, l)"
| "place_all l bs current_pos bucket_index (g # gs) =
     (if g \<noteq> [] then
        case place_group l current_pos g of
          Inl e \<Rightarrow> Inl e
        | Inr (current_pos', l1) \<Rightarrow>
            place_all l1 (bs[bucket_index := \<lparr>b_begin = current_pos, b_end = current_pos'\<rparr>])
              current_pos' (Suc bucket_index) gs
      else place_all l bs current_pos (Suc bucket_index) gs)"

definition rehash :: "('k, 'v) UnorderedMap \<Rightarrow> nat \<Rightarrow>
    ((error + unit) \<times> ('k, 'v) UnorderedMap) option" where
  "rehash m new_size0 =
     (let min_required_buckets =
            size_of_dbl (dbl_div (dbl_of_size (UnorderedMap_size m)) max_load_factor);
          new_size = (if new_size0 < min_required_buckets then min_required_buckets
                      else new_size0)
      in
      if new_size = length (buckets m) \<and> \<not> List_empty (elements m) then Some (Inr (), m)
      else
        let m1 = m\<lparr>buckets := empty_buckets (elements m) new_size\<rparr> in
        if List_empty (elements m1) then Some (Inr (), m1)
        else
          case List_begin (elements m1) of
            Inl e \<Rightarrow> Some (Inl e, m1)
          | Inr first \<Rightarrow>
              (case group_loop (elements m1) (hasher m1) new_size first
                      (replicate new_size []) of
                 None \<Rightarrow> None
               | Some (Inl e) \<Rightarrow> Some (Inl e, m1)
               | Some (Inr bucket_iters) \<Rightarrow>
                   (case place_all (elements m1) (buckets m1) first 0 bucket_iters of
                      Inl e \<Rightarrow> Some (Inl e, m1)
                    | Inr (bs, l) \<Rightarrow> Some (Inr (), m1\<lparr>elements := l, buckets := bs\<rparr>))))"

definition check_rehash :: "('k, 'v) UnorderedMap \<Rightarrow>
    ((error + unit) \<times> ('k, 'v) UnorderedMap) option" where
  "check_rehash m =
     (if dbl_gt (load_factor m) max_load_factor then rehash m (length (buckets m) * 2)
      else Some (Inr (), m))"

subsection \<open>find, insert, emplace, erase\<close>

text \<open>
  The scan that \<open>find\<close>, \<open>insert\<close> and \<open>emplace\<close> share:
  \<open>for (it = buckets[index].begin; it != buckets[index].end; ++it)
       if (key_equal(it->first, key)) ...\<close>.
  It returns the matching iterator, or \<open>None\<close> inside when the loop ran to its end.
\<close>

partial_function (option) bucket_scan :: "('k, 'v) List \<Rightarrow> ('k \<Rightarrow> 'k \<Rightarrow> bool) \<Rightarrow> 'k \<Rightarrow>
    ptr \<Rightarrow> ptr \<Rightarrow> (error + ptr option) option" where
  [code]: "bucket_scan l eq key it e =
     (if it = e then Some (Inr None)
      else
        case get_value l it of
          Inl err \<Rightarrow> Some (Inl err)
        | Inr kv \<Rightarrow>
            if eq (fst kv) key then Some (Inr (Some it))
            else
              (case get_next l it of
                 Inl err \<Rightarrow> Some (Inl err)
               | Inr it' \<Rightarrow> bucket_scan l eq key it' e))"

definition UnorderedMap_find :: "('k, 'v) UnorderedMap \<Rightarrow> 'k \<Rightarrow> (error + ptr) option" where
  "UnorderedMap_find m key =
     (let index = get_bucket_index m key in
      case bucket_at (buckets m) index of
        Inl e \<Rightarrow> Some (Inl e)
      | Inr b \<Rightarrow>
          (case bucket_scan (elements m) (key_equal m) key (b_begin b) (b_end b) of
             None \<Rightarrow> None
           | Some (Inl e) \<Rightarrow> Some (Inl e)
           | Some (Inr (Some it)) \<Rightarrow> Some (Inr it)
           | Some (Inr None) \<Rightarrow> Some (Inr (UnorderedMap_end m))))"

text \<open>
  The branch of \<open>insert\<close> and \<open>emplace\<close> for a bucket whose \<open>begin\<close> is the list end;
  \<open>new_it\<close> is already linked in at the tail of \<open>elements m\<close>.
\<close>

definition open_bucket :: "('k, 'v) UnorderedMap \<Rightarrow> nat \<Rightarrow> ptr \<Rightarrow>
    error + ('k, 'v) UnorderedMap" where
  "open_bucket m index new_it =
     err_bind (get_next (elements m) new_it) (\<lambda>after.
     err_bind (set_bucket (buckets m) index \<lparr>b_begin = new_it, b_end = after\<rparr>) (\<lambda>bs1.
     err_bind (List_begin (elements m)) (\<lambda>first.
     if new_it \<noteq> first then
       err_bind (get_prev (elements m) new_it) (\<lambda>prev_node.
       err_bind (get_value (elements m) prev_node) (\<lambda>pkv.
       let prev_index = get_bucket_index m (fst pkv) in
       if prev_index \<noteq> index then
         err_bind (bucket_at bs1 prev_index) (\<lambda>pb.
         if b_end pb = List_end (elements m) then
           err_bind (set_bucket bs1 prev_index (pb\<lparr>b_end := new_it\<rparr>)) (\<lambda>bs2.
           Inr (m\<lparr>buckets := bs2\<rparr>))
         else Inr (m\<lparr>buckets := bs1\<rparr>))
       else Inr (m\<lparr>buckets := bs1\<rparr>)))
     else Inr (m\<lparr>buckets := bs1\<rparr>))))"

text \<open>
  \<open>insert(const NodeType& value)\<close>; the overload taking \<open>NodeType&&\<close> has the same
  body. Copying the pair into the node does not throw in the model.
\<close>

definition UnorderedMap_insert :: "('k, 'v) UnorderedMap \<Rightarrow> 'k \<times> 'v \<Rightarrow>
    ((error + ptr \<times> bool) \<times> ('k, 'v) UnorderedMap) option" where
  "UnorderedMap_insert m v =
     (case check_rehash m of
        None \<Rightarrow> None
      | Some (Inl e, m1) \<Rightarrow> Some (Inl e, m1)
      | Some (Inr u, m1) \<Rightarrow>
          (let index = get_bucket_index m1 (fst v) in
           case bucket_at (buckets m1) index of
             Inl e \<Rightarrow> Some (Inl e, m1)
           | Inr b \<Rightarrow>
               (case bucket_scan (elements m1) (key_equal m1) (fst v) (b_begin b) (b_end b) of
                  None \<Rightarrow> None
                | Some (Inl e) \<Rightarrow> Some (Inl e, m1)
                | Some (Inr (Some it)) \<Rightarrow> Some (Inr (it, False), m1)
                | Some (Inr None) \<Rightarrow>
                    if b_begin b = List_end (elements m1) then
                      (case List_emplace (elements m1) (List_end (elements m1)) Inr v of
                         (Inl e, l1) \<Rightarrow> Some (Inl e, m1\<lparr>elements := l1\<rparr>)
                       | (Inr new_it, l1) \<Rightarrow>
                           (case open_bucket (m1\<lparr>elements := l1\<rparr>) index new_it of
                              Inl e \<Rightarrow> Some (Inl e, m1\<lparr>elements := l1\<rparr>)
                            | Inr m2 \<Rightarrow> Some (Inr (new_it, True), m2)))
                    else
                      (case List_emplace (elements m1) (b_end b) Inr v of
                         (Inl e, l1) \<Rightarrow> Some (Inl e, m1\<lparr>elements := l1\<rparr>)
                       | (Inr new_it, l1) \<Rightarrow>
                           Some (Inr (new_it, True), m1\<lparr>elements := l1\<rparr>)))))"

text \<open>
  \<open>emplace(args...)\<close>: the entry is constructed at the tail of the list first, then its
  bucket is scanned (the bucket table is read after the new node is linked in), and the
  node is erased again, kept where it is, or moved in front of the bucket's \<open>end\<close>.
\<close>

definition UnorderedMap_emplace :: "('k, 'v) UnorderedMap \<Rightarrow> ('a \<Rightarrow> error + ('k \<times> 'v)) \<Rightarrow> 'a \<Rightarrow>
    ((error + ptr \<times> bool) \<times> ('k, 'v) UnorderedMap) option" where
  "UnorderedMap_emplace m ctor args =
     (case check_rehash m of
        None \<Rightarrow> None
      | Some (Inl e, m1) \<Rightarrow> Some (Inl e, m1)
      | Some (Inr u, m1) \<Rightarrow>
          (case List_emplace (elements m1) (List_end (elements m1)) ctor args of
             (Inl e, l1) \<Rightarrow> Some (Inl e, m1\<lparr>elements := l1\<rparr>)
           | (Inr temp_it, l1) \<Rightarrow>
               (let m2 = m1\<lparr>elements := l1\<rparr> in
                case get_value l1 temp_it of
                  Inl e \<Rightarrow> Some (Inl e, m2)
                | Inr nkv \<Rightarrow>
                    (let newKey = fst nkv; index = get_bucket_index m2 newKey in
                     case bucket_at (buckets m2) index of
                       Inl e \<Rightarrow> Some (Inl e, m2)
                     | Inr b \<Rightarrow>
                         (case bucket_scan l1 (key_equal m2) newKey (b_begin b) (b_end b) of
                            None \<Rightarrow> None
                          | Some (Inl e) \<Rightarrow> Some (Inl e, m2)
                          | Some (Inr (Some it)) \<Rightarrow>
                              (case List_erase l1 temp_it of
                                 (Inl e, l2) \<Rightarrow> Some (Inl e, m2\<lparr>elements := l2\<rparr>)
                               | (Inr nx, l2) \<Rightarrow> Some (Inr (it, False), m2\<lparr>elements := l2\<rparr>))
                          | Some (Inr None) \<Rightarrow>
                              if b_begin b = List_end l1 then
                                (case open_bucket m2 index temp_it of
                                   Inl e \<Rightarrow> Some (Inl e, m2)
                                 | Inr m3 \<Rightarrow> Some (Inr (temp_it, True), m3))
                              else
                                (case move_node l1 temp_it (b_end b) of
                                   (Inl e, l2) \<Rightarrow> Some (Inl e, m2\<lparr>elements := l2\<rparr>)
                                 | (Inr moved, l2) \<Rightarrow>
                                     Some (Inr (moved, True), m2\<lparr>elements := l2\<rparr>)))))))"

text \<open>\<open>erase(const_iterator pos)\<close>. It has no loop, so it always returns.\<close>

definition UnorderedMap_erase :: "('k, 'v) UnorderedMap \<Rightarrow> ptr \<Rightarrow>
    (error + ptr) \<times> ('k, 'v) UnorderedMap" where
  "UnorderedMap_erase m pos =
     (if pos = UnorderedMap_end m then (Inr (UnorderedMap_end m), m)
      else
        case get_value (elements m) pos of
          Inl e \<Rightarrow> (Inl e, m)
        | Inr kv \<Rightarrow>
            (let index = get_bucket_index m (fst kv) in
             case bucket_at (buckets m) index of
               Inl e \<Rightarrow> (Inl e, m)
             | Inr bucket \<Rightarrow>
                 (case get_next (elements m) pos of
                    Inl e \<Rightarrow> (Inl e, m)
                  | Inr it_next \<Rightarrow>
                      (case List_erase (elements m) pos of
                         (Inl e, l1) \<Rightarrow> (Inl e, m\<lparr>elements := l1\<rparr>)
                       | (Inr next_it, l1) \<Rightarrow>
                           (let bucket' =
                                  (if b_begin bucket = pos \<and> b_end bucket = it_next
                                   then \<lparr>b_begin = List_end l1, b_end = List_end l1\<rparr>
                                   else
                                     (let b1 = (if b_begin bucket = pos
                                                then bucket\<lparr>b_begin := next_it\<rparr> else bucket)
                                      in if b_end b1 = it_next then b1\<lparr>b_end := next_it\<rparr>
                                         else b1))
                            in (Inr next_it,
                                m\<lparr>elements := l1,
                                  buckets := (buckets m)[index := bucket']\<rparr>))))))"

subsection \<open>at and operator[]\<close>

definition UnorderedMap_at :: "('k, 'v) UnorderedMap \<Rightarrow> 'k \<Rightarrow> (error + 'v) option" where
  "UnorderedMap_at m key =
     (case UnorderedMap_find m key of
        None \<Rightarrow> None
      | Some (Inl e) \<Rightarrow> Some (Inl e)
      | Some (Inr it) \<Rightarrow>
          if it = UnorderedMap_end m then Some (Inl KeyNotFound)
          else Some (err_bind (get_value (elements m) it) (\<lambda>kv. Inr (snd kv))))"

text \<open>
  \<open>operator[](key)\<close> is \<open>emplace(key, Value())\<close> followed by \<open>it->second\<close>;
  \<open>dflt\<close> is the value-initialised \<open>Value()\<close>. The reference it returns is modelled by
  the iterator it is read through together with the value found there.
\<close>

definition UnorderedMap_subscript :: "('k, 'v) UnorderedMap \<Rightarrow> 'v \<Rightarrow> 'k \<Rightarrow>
    ((error + ptr \<times> 'v) \<times> ('k, 'v) UnorderedMap) option" where
  "UnorderedMap_subscript m dflt key =
     (case UnorderedMap_emplace m Inr (key, dflt) of
        None \<Rightarrow> None
      | Some (Inl e, m1) \<Rightarrow> Some (Inl e, m1)
      | Some (Inr (it, inserted), m1) \<Rightarrow>
          Some (err_bind (get_value (elements m1) it) (\<lambda>kv. Inr (it, snd kv)), m1))"

text \<open>
  \<open>template <typename InputIt> void insert(InputIt first, InputIt last)\<close>: one
  \<open>insert\<close> per element, in order.
\<close>

fun insert_range :: "('k, 'v) UnorderedMap \<Rightarrow> ('k \<times> 'v) list \<Rightarrow>
    ((error + unit) \<times> ('k, 'v) UnorderedMap) option" where
  "insert_range m [] = Some (Inr (), m)"
| "insert_range m (v # vs) =
     (case UnorderedMap_insert m v of
        None \<Rightarrow> None
      | Some (Inl e, m1) \<Rightarrow> Some (Inl e, m1)
      | Some (Inr r, m1) \<Rightarrow> insert_range m1 vs)"

section \<open>Observations of a map state\<close>

text \<open>
  What a client can see of a state by iterating: the nodes from one iterator up to another,
  the list from \<open>begin()\<close> to \<open>end()\<close>, and the range of bucket \<open>i\<close> from
  \<open>begin(i)\<close> to \<open>end(i)\<close>. These are not functions of the source but the vocabulary of
  its specification, so they are total: the walk gives up (\<open>None\<close>) when it reads an
  invalid node or has taken more steps than there are addresses, in which case it runs in
  a cycle and never meets its end.
\<close>

fun range_nodes :: "nat \<Rightarrow> ('k, 'v) List \<Rightarrow> ptr \<Rightarrow> ptr \<Rightarrow> ptr list option" where
  "range_nodes 0 l it e = None"
| "range_nodes (Suc n) l it e =
     (if it = e then Some []
      else
        case get_value l it of
          Inl err \<Rightarrow> None
        | Inr kv \<Rightarrow>
            (case get_next l it of
               Inl err \<Rightarrow> None
             | Inr it' \<Rightarrow> map_option ((#) it) (range_nodes n l it' e)))"

definition all_nodes :: "('k, 'v) List \<Rightarrow> ptr list option" where
  "all_nodes l =
     (case List_begin l of
        Inl e \<Rightarrow> None
      | Inr first \<Rightarrow> range_nodes (Suc (fresh l)) l first (List_end l))"

definition entry_at :: "('k, 'v) List \<Rightarrow> ptr \<Rightarrow> ('k \<times> 'v) option" where
  "entry_at l p = (case get_value l p of Inl e \<Rightarrow> None | Inr kv \<Rightarrow> Some kv)"

definition entries :: "('k, 'v) UnorderedMap \<Rightarrow> ('k \<times> 'v) list option" where
  "entries m =
     (case all_nodes (elements m) of
        None \<Rightarrow> None
      | Some ns \<Rightarrow> those (map (entry_at (elements m)) ns))"

definition bucket_range :: "('k, 'v) UnorderedMap \<Rightarrow> nat \<Rightarrow> ptr list option" where
  "bucket_range m i =
     (case bucket_at (buckets m) i of
        Inl e \<Rightarrow> None
      | Inr b \<Rightarrow> range_nodes (Suc (fresh (elements m))) (elements m) (b_begin b) (b_end b))"

definition hashes_to :: "('k, 'v) UnorderedMap \<Rightarrow> nat \<Rightarrow> ptr \<Rightarrow> bool" where
  "hashes_to m i p =
     (case get_value (elements m) p of
        Inl e \<Rightarrow> False
      | Inr kv \<Rightarrow> hasher m (fst kv) mod bucket_count m = i)"

text \<open>
  The bucket partition invariant of the specification: every bucket range can be walked,
  the ranges taken in ascending bucket index hold exactly the nodes of the list, each node
  once, and every node in the range of bucket \<open>i\<close> has a key that hashes to \<open>i\<close>.
  The list order is not compared: \<open>insert\<close> appends the first entry of a bucket at the
  tail of the list whatever the bucket's index is.
\<close>

definition partition_invariant :: "('k, 'v) UnorderedMap \<Rightarrow> bool" where
  "partition_invariant m =
     (case all_nodes (elements m) of
        None \<Rightarrow> False
      | Some ns \<Rightarrow>
          (case those (map (bucket_range m) [0..<bucket_count m]) of
             None \<Rightarrow> False
           | Some rs \<Rightarrow>
               mset (concat rs) = mset ns \<and>
               list_all (\<lambda>(i, r). list_all (hashes_to m i) r) (zip [0..<bucket_count m] rs)))"

section \<open>The representation invariant of the List\<close>

text \<open>
  What \<open>head_\<close>, \<open>tail_\<close> and the nodes between them look like in every state that the
  list operations produce from \<open>List()\<close>: the head sentinel, the nodes \<open>xs\<close> and the tail
  sentinel are distinct allocated addresses, each node's \<open>next\<close> is its successor and its
  successor's \<open>prev\<close> is the node, and every node between the sentinels has a constructed
  payload. \<open>nxt\<close>, \<open>prv\<close> and \<open>payloads\<close> are the three fields of the store read
  address by address; \<open>payloads l a\<close> is \<open>None\<close> for an address that is not allocated
  and \<open>Some None\<close> for an allocated node without a constructed payload.
\<close>

definition nxt :: "('k, 'v) List \<Rightarrow> addr \<Rightarrow> ptr option" where
  "nxt l a = (case store l a of None \<Rightarrow> None | Some n \<Rightarrow> n_next n)"

definition prv :: "('k, 'v) List \<Rightarrow> addr \<Rightarrow> ptr option" where
  "prv l a = (case store l a of None \<Rightarrow> None | Some n \<Rightarrow> n_prev n)"

definition payloads :: "('k, 'v) List \<Rightarrow> addr \<Rightarrow> ('k \<times> 'v) option option" where
  "payloads l a = map_option n_value (store l a)"

fun linked :: "(addr \<Rightarrow> ptr option) \<Rightarrow> (addr \<Rightarrow> ptr option) \<Rightarrow> addr list \<Rightarrow> bool" where
  "linked N P [] = True"
| "linked N P [a] = True"
| "linked N P (a # b # rest) =
     (N a = Some (Ptr b) \<and> P b = Some (Ptr a) \<and> linked N P (b # rest))"

definition constructed :: "('k, 'v) List \<Rightarrow> addr \<Rightarrow> bool" where
  "constructed l a = (case payloads l a of Some (Some kv) \<Rightarrow> True | _ \<Rightarrow> False)"

definition wf_list :: "('k, 'v) List \<Rightarrow> addr list \<Rightarrow> bool" where
  "wf_list l xs =
     (case l_head l of
        Null \<Rightarrow> False
      | Ptr h \<Rightarrow>
          (case l_tail l of
             Null \<Rightarrow> False
           | Ptr t \<Rightarrow>
               distinct (h # xs @ [t]) \<and>
               linked (nxt l) (prv l) (h # xs @ [t]) \<and>
               list_all (\<lambda>a. a < fresh l) (h # xs @ [t]) \<and>
               list_all (constructed l) xs))"

section \<open>Concrete runs\<close>

text \<open>
  The default-constructed map (\<open>INIT_BUCKET_SIZE\<close> buckets) with the identity as hash
  function, after \<open>insert\<close> of the seventeen keys \<open>0, ..., 16\<close>, and the state that
  run ends in.
\<close>

definition seventeen_inserts :: "((error + unit) \<times> (nat, nat) UnorderedMap) option" where
  "seventeen_inserts =
     insert_range (UnorderedMap_init INIT_BUCKET_SIZE id (=)) (map (\<lambda>k. (k, 0)) [0..<17])"

definition overloaded_map :: "(nat, nat) UnorderedMap" where
  "overloaded_map =
     (case seventeen_inserts of Some (r, m) \<Rightarrow> m | None \<Rightarrow> UnorderedMap_init 0 id (=))"

text \<open>
  The map with two buckets and the identity hash after \<open>insert\<close> of keys 0, 1, 2: three
  entries in two buckets.
\<close>

definition three_inserts :: "((error + unit) \<times> (nat, nat) UnorderedMap) option" where
  "three_inserts = insert_range (UnorderedMap_init 2 id (=)) [(0, 0), (1, 10), (2, 20)]"

definition overloaded_small :: "(nat, nat) UnorderedMap" where
  "overloaded_small =
     (case three_inserts of Some (r, m) \<Rightarrow> m | None \<Rightarrow> UnorderedMap_init 0 id (=))"

text \<open>A pair constructor that always throws.\<close>

definition failing_ctor :: "unit \<Rightarrow> error + nat \<times> nat" where
  "failing_ctor u = Inl ConstructFailed"

section \<open>Facts about rehash\<close>

lemma put_node_fields:
  "put_node l p f = Inr l' \<Longrightarrow>
     l_size l' = l_size l \<and> l_tail l' = l_tail l \<and> l_head l' = l_head l \<and> fresh l' = fresh l"
  by (auto simp: put_node_def split: ptr.splits option.splits)

lemma set_next_size: "set_next l p q = Inr l' \<Longrightarrow> l_size l' = l_size l"
  by (simp add: set_next_def put_node_fields)

lemma set_prev_size: "set_prev l p q = Inr l' \<Longrightarrow> l_size l' = l_size l"
  by (simp add: set_prev_def put_node_fields)

lemma err_bind_Inr: "err_bind r f = Inr y \<Longrightarrow> \<exists>x. r = Inr x \<and> f x = Inr y"
  by (cases r) (simp_all add: err_bind_def)

lemma move_node_size: "move_node l a b = (Inr r, l') \<Longrightarrow> l_size l' = l_size l"
  unfolding move_node_def Let_def
  by (auto split: sum.splits dest!: err_bind_Inr dest!: set_next_size set_prev_size)

lemma place_group_size: "place_group l cp g = Inr (cp', l') \<Longrightarrow> l_size l' = l_size l"
proof (induction g arbitrary: l cp)
  case Nil
  then show ?case by simp
next
  case (Cons old_it rest)
  then show ?case
    by (auto split: if_splits sum.splits prod.splits dest: move_node_size)
qed

lemma place_all_props:
  "place_all l bs cp i gs = Inr (bs', l') \<Longrightarrow> l_size l' = l_size l \<and> length bs' = length bs"
proof (induction gs arbitrary: l bs cp i)
  case Nil
  then show ?case by simp
next
  case (Cons g gs)
  show ?case
  proof (cases "g = []")
    case True
    with Cons show ?thesis by simp
  next
    case False
    with Cons.prems obtain cp1 l1 where pg: "place_group l cp g = Inr (cp1, l1)"
      and pa: "place_all l1 (bs[i := \<lparr>b_begin = cp, b_end = cp1\<rparr>]) cp1 (Suc i) gs = Inr (bs', l')"
      by (auto split: sum.splits)
    from Cons.IH[OF pa] place_group_size[OF pg] show ?thesis by simp
  qed
qed

lemma min_required_buckets_eq:
  "size_of_dbl (dbl_div (dbl_of_size n) max_load_factor) = n"
  by (simp add: dbl_of_size_def max_load_factor_def)

lemma rehash_props:
  assumes "rehash m n = Some (Inr u, m1)"
  shows "l_size (elements m1) = l_size (elements m) \<and>
         length (buckets m1) = max n (l_size (elements m)) \<and>
         hasher m1 = hasher m \<and> key_equal m1 = key_equal m"
  using assms
  unfolding rehash_def Let_def min_required_buckets_eq UnorderedMap_size_def List_size_def
    List_empty_def
  by (auto simp: empty_buckets_def max_def
      split: if_splits sum.splits option.splits prod.splits dest!: place_all_props)

lemma load_factor_gt_iff:
  "dbl_gt (load_factor m) max_load_factor \<longleftrightarrow> length (buckets m) < l_size (elements m)"
  by (auto simp: load_factor_def max_load_factor_def dbl_of_size_def UnorderedMap_size_def
      List_size_def pos_less_divide_eq)

lemma check_rehash_settled:
  assumes "\<not> dbl_gt (load_factor m) max_load_factor"
  shows "check_rehash m = Some (Inr (), m)"
  using assms by (simp add: check_rehash_def)

text \<open>
  What the load-factor check contributes to \<open>insert\<close> and \<open>emplace\<close> on a map whose
  load factor exceeds the maximum: both are determined by what \<open>rehash\<close> with twice the
  bucket count does. When it does not return or fails, so do they, with the same state;
  when it returns the map \<open>m1\<close>, then \<open>m1\<close> has \<open>max (2 * bucket_count) size\<close> buckets
  and the same size, its load factor no longer exceeds the maximum, the bucket index of
  the new key in \<open>m1\<close> is its hash modulo the new bucket count, and the operation on the
  original map is the operation on \<open>m1\<close>.
\<close>

lemma overloaded_call_rehashes_first:
  assumes over: "dbl_gt (load_factor m) max_load_factor"
  shows "case rehash m (bucket_count m * 2) of
           None \<Rightarrow> UnorderedMap_insert m v = None \<and> UnorderedMap_emplace m ctor args = None
         | Some (Inl e, m1) \<Rightarrow>
             UnorderedMap_insert m v = Some (Inl e, m1) \<and>
             UnorderedMap_emplace m ctor args = Some (Inl e, m1)
         | Some (Inr u, m1) \<Rightarrow>
             bucket_count m1 = max (bucket_count m * 2) (UnorderedMap_size m) \<and>
             UnorderedMap_size m1 = UnorderedMap_size m \<and>
             \<not> dbl_gt (load_factor m1) max_load_factor \<and>
             get_bucket_index m1 (fst v) = hasher m (fst v) mod bucket_count m1 \<and>
             UnorderedMap_insert m v = UnorderedMap_insert m1 v \<and>
             UnorderedMap_emplace m ctor args = UnorderedMap_emplace m1 ctor args"
proof (cases "rehash m (bucket_count m * 2)")
  case None
  with over show ?thesis
    by (simp add: UnorderedMap_insert_def UnorderedMap_emplace_def check_rehash_def
        bucket_count_def)
next
  case (Some r)
  obtain res m1 where r: "r = (res, m1)" by (cases r)
  show ?thesis
  proof (cases res)
    case (Inl e)
    with Some r over show ?thesis
      by (simp add: UnorderedMap_insert_def UnorderedMap_emplace_def check_rehash_def
          bucket_count_def)
  next
    case (Inr u)
    with Some r have rh: "rehash m (bucket_count m * 2) = Some (Inr u, m1)" by simp
    note p = rehash_props[OF rh]
    from over have lt: "length (buckets m) < l_size (elements m)"
      by (simp add: load_factor_gt_iff)
    have bc: "bucket_count m1 = max (bucket_count m * 2) (UnorderedMap_size m)"
      using p by (simp add: bucket_count_def UnorderedMap_size_def List_size_def)
    have sz: "UnorderedMap_size m1 = UnorderedMap_size m"
      using p by (simp add: UnorderedMap_size_def List_size_def)
    have settled: "\<not> dbl_gt (load_factor m1) max_load_factor"
      using p by (simp add: load_factor_gt_iff)
    have ne: "buckets m1 \<noteq> []"
      using p lt by auto
    have idx: "get_bucket_index m1 (fst v) = hasher m (fst v) mod bucket_count m1"
      using p ne by (simp add: get_bucket_index_def bucket_count_def)
    have cr: "check_rehash m = Some (Inr u, m1)"
      using over rh by (simp add: check_rehash_def bucket_count_def)
    have cr1: "check_rehash m1 = Some (Inr u, m1)"
      using check_rehash_settled[OF settled] by simp
    have ins: "UnorderedMap_insert m v = UnorderedMap_insert m1 v"
      by (simp add: UnorderedMap_insert_def cr cr1)
    have emp: "UnorderedMap_emplace m ctor args = UnorderedMap_emplace m1 ctor args"
      by (simp add: UnorderedMap_emplace_def cr cr1)
    from bc sz settled idx ins emp show ?thesis
      by (simp add: rh)
  qed
qed

section \<open>Facts about well-formed lists\<close>

text \<open>
  \<open>move_node\<close> on a well-formed list returns, keeps the list well formed and keeps its
  nodes and their payloads; so do the loops of \<open>rehash\<close>, which therefore always returns
  on a well-formed list, and \<open>allocate\<close>. The entries seen by iterating a well-formed
  list are the payloads of its nodes.
\<close>

lemma get_next_nxt: "nxt l a = Some q \<Longrightarrow> get_next l (Ptr a) = Inr q"
  by (auto simp: nxt_def get_next_def node_at_def err_bind_def split: option.splits)

lemma get_prev_prv: "prv l a = Some q \<Longrightarrow> get_prev l (Ptr a) = Inr q"
  by (auto simp: prv_def get_prev_def node_at_def err_bind_def split: option.splits)

lemma get_value_constructed:
  "constructed l a \<Longrightarrow> \<exists>kv. get_value l (Ptr a) = Inr kv \<and> payloads l a = Some (Some kv)"
  by (auto simp: constructed_def payloads_def get_value_def node_at_def err_bind_def split: option.splits)

lemma set_next_views:
  assumes "payloads l a \<noteq> None"
  shows "\<exists>l'. set_next l (Ptr a) q = Inr l' \<and> nxt l' = (nxt l)(a := Some q) \<and> prv l' = prv l \<and>
           payloads l' = payloads l \<and> fresh l' = fresh l \<and> l_head l' = l_head l \<and>
           l_tail l' = l_tail l \<and> l_size l' = l_size l"
  using assms
  by (auto simp: set_next_def put_node_def payloads_def nxt_def prv_def fun_eq_iff split: option.splits)

lemma set_prev_views:
  assumes "payloads l a \<noteq> None"
  shows "\<exists>l'. set_prev l (Ptr a) q = Inr l' \<and> prv l' = (prv l)(a := Some q) \<and> nxt l' = nxt l \<and>
           payloads l' = payloads l \<and> fresh l' = fresh l \<and> l_head l' = l_head l \<and>
           l_tail l' = l_tail l \<and> l_size l' = l_size l"
  using assms
  by (auto simp: set_prev_def put_node_def payloads_def nxt_def prv_def fun_eq_iff split: option.splits)

lemma nxt_alloc: "nxt l a = Some q \<Longrightarrow> payloads l a \<noteq> None"
  by (auto simp: nxt_def payloads_def split: option.splits)

lemma prv_alloc: "prv l a = Some q \<Longrightarrow> payloads l a \<noteq> None"
  by (auto simp: prv_def payloads_def split: option.splits)

lemma move_node_views:
  assumes pf: "prv l f = Some (Ptr p)" and nf: "nxt l f = Some (Ptr n)"
    and pnf: "p \<noteq> f" and nnf: "n \<noteq> f"
    and ap: "payloads l p \<noteq> None" and an: "payloads l n \<noteq> None"
    and qt: "((prv l)(n := Some (Ptr p))) to = Some (Ptr q)"
    and aq: "payloads l q \<noteq> None" and ato: "payloads l to \<noteq> None"
  shows "\<exists>l'. move_node l (Ptr f) (Ptr to) = (Inr (Ptr f), l') \<and>
           nxt l' = (nxt l)(p := Some (Ptr n), q := Some (Ptr f), f := Some (Ptr to)) \<and>
           prv l' = (prv l)(n := Some (Ptr p), to := Some (Ptr f), f := Some (Ptr q)) \<and>
           payloads l' = payloads l \<and> fresh l' = fresh l \<and> l_head l' = l_head l \<and>
           l_tail l' = l_tail l \<and> l_size l' = l_size l"
proof -
  have af: "payloads l f \<noteq> None" using pf by (rule prv_alloc)
  from set_next_views[OF ap, of "Ptr n"] obtain l1 where
    s1: "set_next l (Ptr p) (Ptr n) = Inr l1" and n1: "nxt l1 = (nxt l)(p := Some (Ptr n))"
    and p1: "prv l1 = prv l" and y1: "payloads l1 = payloads l" and r1: "fresh l1 = fresh l"
    "l_head l1 = l_head l" "l_tail l1 = l_tail l" "l_size l1 = l_size l" by blast
  have an1: "payloads l1 n \<noteq> None" using an y1 by simp
  from set_prev_views[OF an1, of "Ptr p"] obtain l2 where
    s2: "set_prev l1 (Ptr n) (Ptr p) = Inr l2" and p2: "prv l2 = (prv l1)(n := Some (Ptr p))"
    and n2: "nxt l2 = nxt l1" and y2: "payloads l2 = payloads l1" and r2: "fresh l2 = fresh l1"
    "l_head l2 = l_head l1" "l_tail l2 = l_tail l1" "l_size l2 = l_size l1" by blast
  have aq2: "payloads l2 q \<noteq> None" using aq y1 y2 by simp
  from set_next_views[OF aq2, of "Ptr f"] obtain l3 where
    s3: "set_next l2 (Ptr q) (Ptr f) = Inr l3" and n3: "nxt l3 = (nxt l2)(q := Some (Ptr f))"
    and p3: "prv l3 = prv l2" and y3: "payloads l3 = payloads l2" and r3: "fresh l3 = fresh l2"
    "l_head l3 = l_head l2" "l_tail l3 = l_tail l2" "l_size l3 = l_size l2" by blast
  have at3: "payloads l3 to \<noteq> None" using ato y1 y2 y3 by simp
  from set_prev_views[OF at3, of "Ptr f"] obtain l4 where
    s4: "set_prev l3 (Ptr to) (Ptr f) = Inr l4" and p4: "prv l4 = (prv l3)(to := Some (Ptr f))"
    and n4: "nxt l4 = nxt l3" and y4: "payloads l4 = payloads l3" and r4: "fresh l4 = fresh l3"
    "l_head l4 = l_head l3" "l_tail l4 = l_tail l3" "l_size l4 = l_size l3" by blast
  have af4: "payloads l4 f \<noteq> None" using af y1 y2 y3 y4 by simp
  from set_prev_views[OF af4, of "Ptr q"] obtain l5 where
    s5: "set_prev l4 (Ptr f) (Ptr q) = Inr l5" and p5: "prv l5 = (prv l4)(f := Some (Ptr q))"
    and n5: "nxt l5 = nxt l4" and y5: "payloads l5 = payloads l4" and r5: "fresh l5 = fresh l4"
    "l_head l5 = l_head l4" "l_tail l5 = l_tail l4" "l_size l5 = l_size l4" by blast
  have af5: "payloads l5 f \<noteq> None" using af4 y5 by simp
  from set_next_views[OF af5, of "Ptr to"] obtain l6 where
    s6: "set_next l5 (Ptr f) (Ptr to) = Inr l6" and n6: "nxt l6 = (nxt l5)(f := Some (Ptr to))"
    and p6: "prv l6 = prv l5" and y6: "payloads l6 = payloads l5" and r6: "fresh l6 = fresh l5"
    "l_head l6 = l_head l5" "l_tail l6 = l_tail l5" "l_size l6 = l_size l5" by blast
  have g1: "get_prev l (Ptr f) = Inr (Ptr p)" using pf by (rule get_prev_prv)
  have g2: "get_next l (Ptr f) = Inr (Ptr n)" using nf by (rule get_next_nxt)
  have g3: "get_next l1 (Ptr f) = Inr (Ptr n)"
    using nf pnf by (intro get_next_nxt) (simp add: n1)
  have g4: "get_prev l1 (Ptr f) = Inr (Ptr p)"
    using pf by (intro get_prev_prv) (simp add: p1)
  have g5: "get_prev l2 (Ptr to) = Inr (Ptr q)"
    using qt by (intro get_prev_prv) (simp add: p2 p1)
  have mv: "move_node l (Ptr f) (Ptr to) = (Inr (Ptr f), l6)"
    by (simp add: move_node_def err_bind_def g1 g2 g3 g4 g5 s1 s2 s3 s4 s5 s6)
  show ?thesis
    apply (rule exI[of _ l6])
    apply (simp add: mv n6 n5 n4 n3 n2 n1 p6 p5 p4 p3 p2 p1 y6 y5 y4 y3 y2 y1 r1 r2 r3 r4 r5 r6)
    done
qed

lemma in_tl_set: "x \<in> set (tl xs) \<Longrightarrow> x \<in> set xs"
  by (cases xs) auto

lemma linked_append:
  "linked N P (A @ a # B) \<longleftrightarrow> linked N P (A @ [a]) \<and> linked N P (a # B)"
proof (induction A rule: linked.induct[of _ N P])
  case 1
  then show ?case by simp
next
  case (2 x)
  then show ?case by (cases B) auto
next
  case (3 x y rest)
  then show ?case by auto
qed

lemma linked_cong:
  assumes "\<And>a. a \<in> set (butlast as) \<Longrightarrow> N' a = N a"
    and "\<And>a. a \<in> set (tl as) \<Longrightarrow> P' a = P a"
  shows "linked N' P' as = linked N P as"
  using assms
proof (induction as rule: linked.induct[of _ N P])
  case 1
  then show ?case by simp
next
  case (2 a)
  then show ?case by simp
next
  case (3 a b rest)
  then show ?case by (auto split: if_splits)
qed

lemma linked_unlink:
  assumes l: "linked N P (A @ p # f # n # B)" and d: "distinct (A @ p # f # n # B)"
  shows "linked (N(p := Some (Ptr n))) (P(n := Some (Ptr p))) (A @ p # n # B)"
proof -
  let ?N = "N(p := Some (Ptr n))" and ?P = "P(n := Some (Ptr p))"
  from l have l1: "linked N P (A @ [p])" and l2: "linked N P (n # B)"
    using linked_append[of N P A p "f # n # B"] linked_append[of N P "[p, f]" n B]
    by auto
  have a: "linked ?N ?P (A @ [p])"
    using d by (subst linked_cong[of _ ?N N ?P P]) (auto simp: l1 butlast_append dest: in_set_butlastD in_tl_set)
  have b: "linked ?N ?P (n # B)"
    using d by (subst linked_cong[of _ ?N N ?P P]) (auto simp: l2 dest: in_set_butlastD in_tl_set split: if_splits)
  have c: "linked ?N ?P (p # n # B)"
    using b by simp
  show ?thesis
    using a c linked_append[of ?N ?P A p "n # B"] by simp
qed

lemma linked_insert:
  assumes l: "linked N P (C @ q # t # D)" and d: "distinct (C @ q # t # D)"
    and f: "f \<notin> set (C @ q # t # D)"
  shows "linked (N(q := Some (Ptr f), f := Some (Ptr t))) (P(t := Some (Ptr f), f := Some (Ptr q)))
           (C @ q # f # t # D)"
proof -
  let ?N = "N(q := Some (Ptr f), f := Some (Ptr t))" and ?P = "P(t := Some (Ptr f), f := Some (Ptr q))"
  from l have l1: "linked N P (C @ [q])" and l2: "linked N P (t # D)"
    using linked_append[of N P C q "t # D"] linked_append[of N P "[q]" t D]
    by auto
  have a: "linked ?N ?P (C @ [q])"
    using d f by (subst linked_cong[of _ ?N N ?P P]) (auto simp: l1 butlast_append dest: in_set_butlastD in_tl_set)
  have b: "linked ?N ?P (t # D)"
    using d f by (subst linked_cong[of _ ?N N ?P P]) (auto simp: l2 dest: in_set_butlastD in_tl_set split: if_splits)
  have c: "linked ?N ?P (q # f # t # D)"
    using b d f by auto
  show ?thesis
    using a c linked_append[of ?N ?P C q "f # t # D"] by simp
qed

lemma split_at_inner:
  assumes "x \<in> set xs"
  shows "\<exists>A p n B. h # xs @ [t] = A @ p # x # n # B"
proof -
  from assms obtain ys zs where xs: "xs = ys @ x # zs" by (auto simp: in_set_conv_decomp)
  have "\<exists>A p. h # ys = A @ [p]" by (metis append_butlast_last_id list.distinct(1))
  moreover have "\<exists>n B. zs @ [t] = n # B" by (cases zs) auto
  ultimately obtain A p n B where "h # ys = A @ [p]" "zs @ [t] = n # B" by blast
  then have "h # xs @ [t] = A @ p # x # n # B" using xs
    by (metis append.assoc append_Cons append_Nil)
  then show ?thesis by blast
qed

lemma split_at_tl:
  assumes "x \<in> set (tl as)"
  shows "\<exists>C q D. as = C @ q # x # D"
proof -
  from assms obtain a rest where as: "as = a # rest" and "x \<in> set rest" by (cases as) auto
  then obtain ys zs where rest: "rest = ys @ x # zs" by (auto simp: in_set_conv_decomp)
  have "\<exists>C q. a # ys = C @ [q]" by (metis append_butlast_last_id list.distinct(1))
  then obtain C q where "a # ys = C @ [q]" by blast
  then have "as = C @ q # x # zs" using as rest by (metis append.assoc append_Cons append_Nil)
  then show ?thesis by blast
qed

lemma reframe:
  assumes m: "mset as' = mset (h # xs @ [t])" and hd: "hd as' = h" and la: "last as' = t"
  shows "\<exists>xs'. as' = h # xs' @ [t] \<and> mset xs' = mset xs"
proof -
  from m have len: "length as' = length xs + 2"
    by (metis mset_eq_length length_Cons length_append_singleton Suc_eq_plus1 add_Suc_right add_2_eq_Suc' length_append) 
  then obtain a rest where as': "as' = a # rest" by (cases as') auto
  with len have "rest \<noteq> []" by auto
  then have rest: "rest = butlast rest @ [last rest]" by simp
  from as' hd have a: "a = h" by simp
  from as' la \<open>rest \<noteq> []\<close> have l: "last rest = t" by simp
  have eq: "as' = h # butlast rest @ [t]" using as' a rest l by simp
  from m eq have "mset (h # butlast rest @ [t]) = mset (h # xs @ [t])" by simp
  then have "mset (butlast rest) = mset xs" by simp
  with eq show ?thesis by blast
qed

lemma wf_listD:
  assumes "wf_list l xs"
  shows "\<exists>h t. l_head l = Ptr h \<and> l_tail l = Ptr t \<and> distinct (h # xs @ [t]) \<and>
    linked (nxt l) (prv l) (h # xs @ [t]) \<and> (\<forall>a \<in> set (h # xs @ [t]). a < fresh l) \<and>
    (\<forall>a \<in> set xs. constructed l a)"
  using assms unfolding wf_list_def
  by (auto split: ptr.splits simp: list_all_iff)

lemma wf_listI:
  assumes "l_head l = Ptr h" "l_tail l = Ptr t" "distinct (h # xs @ [t])"
    "linked (nxt l) (prv l) (h # xs @ [t])" "\<And>a. a \<in> set (h # xs @ [t]) \<Longrightarrow> a < fresh l"
    "\<And>a. a \<in> set xs \<Longrightarrow> constructed l a"
  shows "wf_list l xs"
  using assms unfolding wf_list_def
  by (auto simp: list_all_iff)

lemma constructed_cong: "payloads l' = payloads l \<Longrightarrow> constructed l' = constructed l"
  by (simp add: constructed_def fun_eq_iff)

lemma move_node_wf:
  assumes wf: "wf_list l xs" and tl: "l_tail l = Ptr t" and f: "f \<in> set xs"
    and to: "to \<in> set (xs @ [t])" and ne: "to \<noteq> f"
  shows "\<exists>l' xs'. move_node l (Ptr f) (Ptr to) = (Inr (Ptr f), l') \<and> wf_list l' xs' \<and>
           mset xs' = mset xs \<and> nxt l' f = Some (Ptr to) \<and> payloads l' = payloads l \<and>
           fresh l' = fresh l \<and> l_head l' = l_head l \<and> l_tail l' = l_tail l \<and>
           l_size l' = l_size l"
proof -
  from wf obtain h t' where hd: "l_head l = Ptr h" and tl': "l_tail l = Ptr t'"
    and d0: "distinct (h # xs @ [t'])" and li0: "linked (nxt l) (prv l) (h # xs @ [t'])"
    and fr0: "\<And>a. a \<in> set (h # xs @ [t']) \<Longrightarrow> a < fresh l"
    and co: "\<And>a. a \<in> set xs \<Longrightarrow> constructed l a"
    using wf_listD by blast
  from tl tl' have [simp]: "t' = t" by simp
  let ?as = "h # xs @ [t]"
  let ?N = "nxt l" and ?P = "prv l"
  from split_at_inner[OF f, of h t] obtain A p n B where as: "?as = A @ p # f # n # B" by blast
  have d: "distinct (A @ p # f # n # B)" using d0 as by simp
  have li: "linked ?N ?P (A @ p # f # n # B)" using li0 as by simp
  from li have "linked ?N ?P (p # f # n # B)"
    using linked_append[of ?N ?P A p "f # n # B"] by simp
  then have Np: "?N p = Some (Ptr f)" and Pf: "?P f = Some (Ptr p)"
    and Nf: "?N f = Some (Ptr n)" and Pn: "?P n = Some (Ptr f)" by simp_all
  have ap: "payloads l p \<noteq> None" using Np by (rule nxt_alloc)
  have an: "payloads l n \<noteq> None" using Pn by (rule prv_alloc)
  from d have pnf: "p \<noteq> f" and nnf: "n \<noteq> f" by auto
  let ?N1 = "?N(p := Some (Ptr n))" and ?P1 = "?P(n := Some (Ptr p))"
  let ?as1 = "A @ p # n # B"
  have li1: "linked ?N1 ?P1 ?as1" using li d by (rule linked_unlink)
  have d1: "distinct ?as1" using d by auto
  have f1: "f \<notin> set ?as1" using d by auto
  have hd1: "hd ?as1 = h" using as by (cases A) auto
  have set1: "set ?as = insert f (set ?as1)" using as by auto
  have to_as: "to \<in> set ?as" using to by auto
  have to_h: "to \<noteq> h" using to d0 by auto
  have "to \<in> set ?as1" using to_as ne set1 by auto
  moreover have "?as1 = h # tl ?as1" using hd1 by (cases A) auto
  ultimately have "to \<in> set (tl ?as1)" using to_h by (metis set_ConsD)
  from split_at_tl[OF this] obtain C q D where as1: "?as1 = C @ q # to # D" by blast
  have li1': "linked ?N1 ?P1 (C @ q # to # D)" using li1 as1 by simp
  then have "linked ?N1 ?P1 (q # to # D)"
    using linked_append[of ?N1 ?P1 C q "to # D"] by simp
  then have N1q: "?N1 q = Some (Ptr to)" and P1to: "?P1 to = Some (Ptr q)" by simp_all
  have aq: "payloads l q \<noteq> None"
    using N1q ap by (cases "q = p") (auto dest: nxt_alloc)
  have ato: "payloads l to \<noteq> None"
    using P1to an by (cases "to = n") (auto dest: prv_alloc)
  from move_node_views[OF Pf Nf pnf nnf ap an P1to aq ato] obtain l' where
    mv: "move_node l (Ptr f) (Ptr to) = (Inr (Ptr f), l')"
    and N': "nxt l' = ?N(p := Some (Ptr n), q := Some (Ptr f), f := Some (Ptr to))"
    and P': "prv l' = ?P(n := Some (Ptr p), to := Some (Ptr f), f := Some (Ptr q))"
    and pay: "payloads l' = payloads l" and fr: "fresh l' = fresh l"
    and hd': "l_head l' = l_head l" and tl'': "l_tail l' = l_tail l"
    and sz: "l_size l' = l_size l" by blast
  let ?as2 = "C @ q # f # to # D"
  have d1': "distinct (C @ q # to # D)" using d1 as1 by simp
  have f1': "f \<notin> set (C @ q # to # D)" using f1 as1 by simp
  have li2: "linked (nxt l') (prv l') ?as2"
    unfolding N' P' using linked_insert[OF li1' d1' f1'] by simp
  have m2: "mset ?as2 = mset ?as"
  proof -
    have "mset ?as2 = add_mset f (mset (C @ q # to # D))" by simp
    also have "\<dots> = add_mset f (mset ?as1)" using as1 by simp
    also have "\<dots> = mset (A @ p # f # n # B)" by simp
    finally show ?thesis using as by simp
  qed
  have hd2: "hd ?as2 = h"
  proof -
    have "hd ?as2 = hd (C @ q # to # D)" by (cases C) auto
    then show ?thesis using as1 hd1 by simp
  qed
  have la2: "last ?as2 = t"
  proof -
    have "last ?as2 = last (C @ q # to # D)" by simp
    also have "\<dots> = last ?as1" using as1 by simp
    also have "\<dots> = last (A @ p # f # n # B)" by simp
    also have "\<dots> = last ?as" using as by simp
    finally show ?thesis by simp
  qed
  from reframe[OF m2 hd2 la2] obtain xs' where as2: "?as2 = h # xs' @ [t]"
    and mx: "mset xs' = mset xs" by blast
  have d2: "distinct (h # xs' @ [t])"
    using m2 d0 as2 by (metis \<open>t' = t\<close> mset_eq_imp_distinct_iff)
  have s2: "set (h # xs' @ [t]) = set ?as" using m2 as2 by (metis mset_eq_setD)
  have sx: "set xs' = set xs" using mx by (rule mset_eq_setD)
  have wf': "wf_list l' xs'"
  proof (rule wf_listI)
    show "l_head l' = Ptr h" using hd' hd by simp
    show "l_tail l' = Ptr t" using tl'' tl by simp
    show "distinct (h # xs' @ [t])" by (rule d2)
    show "linked (nxt l') (prv l') (h # xs' @ [t])" using li2 as2 by simp
    show "\<And>a. a \<in> set (h # xs' @ [t]) \<Longrightarrow> a < fresh l'"
      using fr0 sx fr by auto
    show "\<And>a. a \<in> set xs' \<Longrightarrow> constructed l' a"
      using co sx constructed_cong[OF pay] by simp
  qed
  have "nxt l' f = Some (Ptr to)" unfolding N' by simp
  with mv wf' mx pay fr hd' tl'' sz show ?thesis by blast
qed

lemma linked_tl: "linked N P (a # as) \<Longrightarrow> linked N P as"
  by (cases as) auto

lemma linked_hd_next:
  "linked N P (z # zs @ [t]) \<Longrightarrow> N z = Some (Ptr (hd (zs @ [t])))"
  by (cases zs) auto

lemma set_concat_update:
  "set (concat (gs[i := gs ! i @ [x]])) \<subseteq> insert x (set (concat gs))"
proof (cases "i < length gs")
  case True
  have "set (gs[i := gs ! i @ [x]]) \<subseteq> insert (gs ! i @ [x]) (set gs)"
    by (rule set_update_subset_insert)
  then show ?thesis using True by (auto simp: subset_iff)
next
  case False
  then have "gs[i := gs ! i @ [x]] = gs" by (simp add: list_update_beyond)
  then show ?thesis by auto
qed

lemma group_loop_walk:
  assumes "linked (nxt l) (prv l) (zs @ [t])" and "\<forall>a \<in> set zs. constructed l a"
    and "t \<notin> set zs" and "l_tail l = Ptr t"
  shows "\<exists>gs'. group_loop l hf n (Ptr (hd (zs @ [t]))) gs = Some (Inr gs') \<and>
           length gs' = length gs \<and> set (concat gs') \<subseteq> set (concat gs) \<union> Ptr ` set zs"
  using assms
proof (induction zs arbitrary: gs)
  case Nil
  then show ?case by (subst group_loop.simps) (simp add: List_end_def)
next
  case (Cons z zs)
  from Cons.prems have lk: "linked (nxt l) (prv l) (z # zs @ [t])" by simp
  from Cons.prems have zt: "z \<noteq> t" by simp
  from Cons.prems have "constructed l z" by simp
  then obtain kv where gv: "get_value l (Ptr z) = Inr kv"
    using get_value_constructed by blast
  have gn: "get_next l (Ptr z) = Inr (Ptr (hd (zs @ [t])))"
    using linked_hd_next[OF lk] by (rule get_next_nxt)
  let ?gs = "gs[hf (fst kv) mod n := gs ! (hf (fst kv) mod n) @ [Ptr z]]"
  from Cons.IH[of ?gs] Cons.prems linked_tl[OF lk]
  obtain gs' where r: "group_loop l hf n (Ptr (hd (zs @ [t]))) ?gs = Some (Inr gs')"
    and len: "length gs' = length ?gs"
    and sub: "set (concat gs') \<subseteq> set (concat ?gs) \<union> Ptr ` set zs" by auto
  have step: "group_loop l hf n (Ptr (hd ((z # zs) @ [t]))) gs = Some (Inr gs')"
    using zt Cons.prems(4) by (subst group_loop.simps) (simp add: List_end_def gv gn r)
  have "set (concat gs') \<subseteq> set (concat gs) \<union> Ptr ` set (z # zs)"
    using sub set_concat_update[of gs "hf (fst kv) mod n" "Ptr z"] by auto
  with step len show ?case by auto
qed

lemma wf_next:
  assumes wf: "wf_list l xs" and tl: "l_tail l = Ptr t" and f: "f \<in> set xs"
  shows "\<exists>n. nxt l f = Some (Ptr n) \<and> n \<in> set (xs @ [t])"
proof -
  from wf obtain h t' where tl': "l_tail l = Ptr t'"
    and li0: "linked (nxt l) (prv l) (h # xs @ [t'])"
    using wf_listD by blast
  from tl tl' have [simp]: "t' = t" by simp
  from f obtain ys zs where xs: "xs = ys @ f # zs" by (auto simp: in_set_conv_decomp)
  have "linked (nxt l) (prv l) ((h # ys) @ f # zs @ [t])" using li0 xs by simp
  then have "linked (nxt l) (prv l) (f # zs @ [t])"
    using linked_append[of "nxt l" "prv l" "h # ys" f "zs @ [t]"] by simp
  then have "nxt l f = Some (Ptr (hd (zs @ [t])))" by (rule linked_hd_next)
  moreover have "hd (zs @ [t]) \<in> set (xs @ [t])" using xs by (cases zs) auto
  ultimately show ?thesis by blast
qed

lemma place_group_wf:
  assumes "wf_list l xs" and "l_tail l = Ptr t" and "set g \<subseteq> Ptr ` set xs"
    and "cp \<in> Ptr ` set (xs @ [t])"
  shows "\<exists>cp' l' xs'. place_group l cp g = Inr (cp', l') \<and> wf_list l' xs' \<and>
           mset xs' = mset xs \<and> cp' \<in> Ptr ` set (xs' @ [t]) \<and> payloads l' = payloads l \<and>
           fresh l' = fresh l \<and> l_head l' = l_head l \<and> l_tail l' = l_tail l \<and>
           l_size l' = l_size l"
  using assms
proof (induction g arbitrary: l xs cp)
  case Nil
  then show ?case by auto
next
  case (Cons old_it rest)
  from Cons.prems obtain f where old: "old_it = Ptr f" and f: "f \<in> set xs" by auto
  from Cons.prems obtain to where cp: "cp = Ptr to" and to: "to \<in> set (xs @ [t])" by auto
  have "\<exists>moved cur l1 xs1.
          (if old_it \<noteq> cp then move_node l old_it cp else (Inr cp, l)) = (Inr moved, l1) \<and>
          get_next l1 moved = Inr cur \<and> wf_list l1 xs1 \<and> mset xs1 = mset xs \<and>
          cur \<in> Ptr ` set (xs1 @ [t]) \<and> payloads l1 = payloads l \<and> fresh l1 = fresh l \<and>
          l_head l1 = l_head l \<and> l_tail l1 = l_tail l \<and> l_size l1 = l_size l"
  proof (cases "old_it = cp")
    case True
    from wf_next[OF Cons.prems(1) Cons.prems(2) f] obtain n where
      n: "nxt l f = Some (Ptr n)" "n \<in> set (xs @ [t])" by blast
    have "get_next l (Ptr f) = Inr (Ptr n)" using n(1) by (rule get_next_nxt)
    then have "get_next l cp = Inr (Ptr n)" using True old by simp
    with True n(2) Cons.prems(1) show ?thesis by auto
  next
    case False
    then have ne: "to \<noteq> f" using old cp by auto
    from move_node_wf[OF Cons.prems(1) Cons.prems(2) f to ne] obtain l1 xs1 where
      mv: "move_node l (Ptr f) (Ptr to) = (Inr (Ptr f), l1)" and wf1: "wf_list l1 xs1"
      and m1: "mset xs1 = mset xs" and nx: "nxt l1 f = Some (Ptr to)"
      and rest: "payloads l1 = payloads l" "fresh l1 = fresh l" "l_head l1 = l_head l"
        "l_tail l1 = l_tail l" "l_size l1 = l_size l" by blast
    have gn: "get_next l1 (Ptr f) = Inr (Ptr to)" using nx by (rule get_next_nxt)
    have "set xs1 = set xs" using m1 by (rule mset_eq_setD)
    then have "Ptr to \<in> Ptr ` set (xs1 @ [t])" using to by auto
    with False mv wf1 m1 gn rest old cp show ?thesis by auto
  qed
  then obtain moved cur l1 xs1 where
    st: "(if old_it \<noteq> cp then move_node l old_it cp else (Inr cp, l)) = (Inr moved, l1)"
    and gn: "get_next l1 moved = Inr cur" and wf1: "wf_list l1 xs1"
    and m1: "mset xs1 = mset xs" and cur: "cur \<in> Ptr ` set (xs1 @ [t])"
    and fr1: "payloads l1 = payloads l" "fresh l1 = fresh l" "l_head l1 = l_head l"
      "l_tail l1 = l_tail l" "l_size l1 = l_size l" by blast
  have sx: "set xs1 = set xs" using m1 by (rule mset_eq_setD)
  have tl1: "l_tail l1 = Ptr t" using fr1 Cons.prems(2) by simp
  have sub: "set rest \<subseteq> Ptr ` set xs1" using Cons.prems(3) sx by auto
  from Cons.IH[OF wf1 tl1 sub cur] obtain cp' l' xs' where
    r: "place_group l1 cur rest = Inr (cp', l')" and wf': "wf_list l' xs'"
    and m': "mset xs' = mset xs1" and cp': "cp' \<in> Ptr ` set (xs' @ [t])"
    and fr': "payloads l' = payloads l1" "fresh l' = fresh l1" "l_head l' = l_head l1"
      "l_tail l' = l_tail l1" "l_size l' = l_size l1" by blast
  have "place_group l cp (old_it # rest) = Inr (cp', l')"
    using st gn r by simp
  with wf' m' m1 cp' fr' fr1 show ?case by auto
qed

lemma place_all_wf:
  assumes "wf_list l xs" and "l_tail l = Ptr t" and "\<forall>g \<in> set gs. set g \<subseteq> Ptr ` set xs"
    and "cp \<in> Ptr ` set (xs @ [t])"
  shows "\<exists>bs' l' xs'. place_all l bs cp i gs = Inr (bs', l') \<and> wf_list l' xs' \<and>
           mset xs' = mset xs \<and> payloads l' = payloads l \<and>
           fresh l' = fresh l \<and> l_head l' = l_head l \<and> l_tail l' = l_tail l \<and>
           l_size l' = l_size l"
  using assms
proof (induction gs arbitrary: l xs cp bs i)
  case Nil
  then show ?case by auto
next
  case (Cons g gs)
  show ?case
  proof (cases "g = []")
    case True
    from Cons.IH[OF Cons.prems(1) Cons.prems(2) _ Cons.prems(4), of bs "Suc i"] Cons.prems(3)
    show ?thesis using True by simp
  next
    case False
    from Cons.prems(3) have g: "set g \<subseteq> Ptr ` set xs" by simp
    from place_group_wf[OF Cons.prems(1) Cons.prems(2) g Cons.prems(4)] obtain cp1 l1 xs1 where
      pg: "place_group l cp g = Inr (cp1, l1)" and wf1: "wf_list l1 xs1"
      and m1: "mset xs1 = mset xs" and cp1: "cp1 \<in> Ptr ` set (xs1 @ [t])"
      and fr1: "payloads l1 = payloads l" "fresh l1 = fresh l" "l_head l1 = l_head l"
        "l_tail l1 = l_tail l" "l_size l1 = l_size l" by blast
    have sx: "set xs1 = set xs" using m1 by (rule mset_eq_setD)
    have tl1: "l_tail l1 = Ptr t" using fr1 Cons.prems(2) by simp
    have sub: "\<forall>g \<in> set gs. set g \<subseteq> Ptr ` set xs1" using Cons.prems(3) sx by simp
    from Cons.IH[OF wf1 tl1 sub cp1, of "bs[i := \<lparr>b_begin = cp, b_end = cp1\<rparr>]" "Suc i"]
    obtain bs' l' xs' where
      r: "place_all l1 (bs[i := \<lparr>b_begin = cp, b_end = cp1\<rparr>]) cp1 (Suc i) gs = Inr (bs', l')"
      and wf': "wf_list l' xs'" and m': "mset xs' = mset xs1"
      and fr': "payloads l' = payloads l1" "fresh l' = fresh l1" "l_head l' = l_head l1"
        "l_tail l' = l_tail l1" "l_size l' = l_size l1" by blast
    have "place_all l bs cp i (g # gs) = Inr (bs', l')" using False pg r by simp
    with wf' m' m1 fr' fr1 show ?thesis by auto
  qed
qed

lemma rehash_wf:
  assumes wf: "wf_list (elements m) xs"
  shows "\<exists>m1 xs1. rehash m n = Some (Inr (), m1) \<and> wf_list (elements m1) xs1 \<and>
           mset xs1 = mset xs \<and> payloads (elements m1) = payloads (elements m) \<and>
           fresh (elements m1) = fresh (elements m)"
proof -
  let ?l = "elements m"
  from wf obtain h t where hd: "l_head ?l = Ptr h" and tl: "l_tail ?l = Ptr t"
    and d0: "distinct (h # xs @ [t])" and li0: "linked (nxt ?l) (prv ?l) (h # xs @ [t])"
    and co: "\<forall>a \<in> set xs. constructed ?l a"
    using wf_listD by blast
  define new_size where "new_size =
     (if n < size_of_dbl (dbl_div (dbl_of_size (UnorderedMap_size m)) max_load_factor)
      then size_of_dbl (dbl_div (dbl_of_size (UnorderedMap_size m)) max_load_factor) else n)"
  let ?m1 = "m\<lparr>buckets := empty_buckets ?l new_size\<rparr>"
  show ?thesis
  proof (cases "new_size = length (buckets m) \<and> \<not> List_empty ?l")
    case True
    then have "rehash m n = Some (Inr (), m)"
      by (simp add: rehash_def Let_def new_size_def)
    with wf show ?thesis by blast
  next
    case False
    note not_same = this
    show ?thesis
    proof (cases "List_empty ?l")
      case True
      with not_same have "rehash m n = Some (Inr (), ?m1)"
        by (simp add: rehash_def Let_def new_size_def)
      moreover have "wf_list (elements ?m1) xs" using wf by simp
      ultimately show ?thesis by (intro exI[of _ ?m1] exI[of _ xs]) simp
    next
      case False
      let ?first = "Ptr (hd (xs @ [t]))"
      have "nxt ?l h = Some ?first" using li0 by (rule linked_hd_next)
      then have bg: "List_begin ?l = Inr ?first"
        by (simp add: List_begin_def hd get_next_nxt)
      have lk: "linked (nxt ?l) (prv ?l) (xs @ [t])" using li0 by (rule linked_tl)
      have tx: "t \<notin> set xs" using d0 by auto
      from group_loop_walk[OF lk co tx tl, of "hasher m" new_size "replicate new_size []"]
      obtain gs where gl: "group_loop ?l (hasher m) new_size ?first (replicate new_size []) =
          Some (Inr gs)" and sub: "set (concat gs) \<subseteq> Ptr ` set xs" by auto
      have gsub: "\<forall>g \<in> set gs. set g \<subseteq> Ptr ` set xs" using sub by auto
      have cp: "?first \<in> Ptr ` set (xs @ [t])" by (cases xs) auto
      from place_all_wf[OF wf tl gsub cp, of "empty_buckets ?l new_size" 0]
      obtain bs' l' xs' where
        pa: "place_all ?l (empty_buckets ?l new_size) ?first 0 gs = Inr (bs', l')"
        and wf': "wf_list l' xs'" and m': "mset xs' = mset xs"
        and fr: "payloads l' = payloads ?l" "fresh l' = fresh ?l" by blast
      have "rehash m n = Some (Inr (), ?m1\<lparr>elements := l', buckets := bs'\<rparr>)"
        using not_same False
        by (simp add: rehash_def Let_def new_size_def[symmetric] bg gl pa)
      with wf' m' fr show ?thesis
        by (intro exI[of _ "?m1\<lparr>elements := l', buckets := bs'\<rparr>"] exI[of _ xs']) simp
    qed
  qed
qed

lemma entry_at_payloads:
  "entry_at l (Ptr a) = (case payloads l a of Some (Some kv) \<Rightarrow> Some kv | _ \<Rightarrow> None)"
  by (auto simp: entry_at_def get_value_def node_at_def err_bind_def payloads_def
      split: option.splits)

lemma range_nodes_walk:
  assumes "linked (nxt l) (prv l) (zs @ [t])" and "\<forall>a \<in> set zs. constructed l a"
    and "t \<notin> set zs" and "length zs < fuel"
  shows "range_nodes fuel l (Ptr (hd (zs @ [t]))) (Ptr t) = Some (map Ptr zs)"
  using assms
proof (induction zs arbitrary: fuel)
  case Nil
  then obtain k where "fuel = Suc k" by (cases fuel) auto
  then show ?case by simp
next
  case (Cons z zs)
  from Cons.prems obtain k where fuel: "fuel = Suc k" and k: "length zs < k" by (cases fuel) auto
  from Cons.prems have lk: "linked (nxt l) (prv l) (z # zs @ [t])" by simp
  from Cons.prems have zt: "z \<noteq> t" by simp
  from Cons.prems have "constructed l z" by simp
  then obtain kv where gv: "get_value l (Ptr z) = Inr kv"
    using get_value_constructed by blast
  have gn: "get_next l (Ptr z) = Inr (Ptr (hd (zs @ [t])))"
    using linked_hd_next[OF lk] by (rule get_next_nxt)
  from Cons.IH[OF linked_tl[OF lk] _ _ k] Cons.prems
  have "range_nodes k l (Ptr (hd (zs @ [t]))) (Ptr t) = Some (map Ptr zs)" by simp
  then show ?case using fuel zt gv gn by simp
qed

lemma distinct_bounded_length:
  assumes "distinct xs" and "\<forall>a \<in> set xs. a < (k::nat)"
  shows "length xs \<le> k"
proof -
  have "set xs \<subseteq> {..<k}" using assms(2) by auto
  then have "card (set xs) \<le> card {..<k}" by (intro card_mono) auto
  then show ?thesis using assms(1) by (simp add: distinct_card)
qed

lemma all_nodes_wf:
  assumes wf: "wf_list l xs"
  shows "all_nodes l = Some (map Ptr xs)"
proof -
  from wf obtain h t where hd: "l_head l = Ptr h" and tl: "l_tail l = Ptr t"
    and d0: "distinct (h # xs @ [t])" and li0: "linked (nxt l) (prv l) (h # xs @ [t])"
    and fr: "\<forall>a \<in> set (h # xs @ [t]). a < fresh l"
    and co: "\<forall>a \<in> set xs. constructed l a"
    using wf_listD by blast
  have "nxt l h = Some (Ptr (hd (xs @ [t])))" using li0 by (rule linked_hd_next)
  then have bg: "List_begin l = Inr (Ptr (hd (xs @ [t])))"
    by (simp add: List_begin_def hd get_next_nxt)
  have lk: "linked (nxt l) (prv l) (xs @ [t])" using li0 by (rule linked_tl)
  have tx: "t \<notin> set xs" using d0 by auto
  have "length xs \<le> fresh l" using d0 fr by (intro distinct_bounded_length) auto
  then have len: "length xs < Suc (fresh l)" by simp
  from range_nodes_walk[OF lk co tx len] show ?thesis
    by (simp add: all_nodes_def bg List_end_def tl)
qed

lemma those_map_Some:
  assumes "\<forall>a \<in> set xs. f a \<noteq> None"
  shows "those (map f xs) = Some (map (\<lambda>a. the (f a)) xs)"
  using assms by (induction xs) auto

lemma entries_wf:
  assumes wf: "wf_list (elements m) xs"
  shows "entries m = Some (map (\<lambda>a. the (entry_at (elements m) (Ptr a))) xs)"
proof -
  from wf have co: "\<forall>a \<in> set xs. constructed (elements m) a"
    using wf_listD by blast
  have "\<forall>a \<in> set xs. entry_at (elements m) (Ptr a) \<noteq> None"
    using co by (auto simp: entry_at_payloads constructed_def split: option.splits)
  then have "those (map (\<lambda>a. entry_at (elements m) (Ptr a)) xs)
      = Some (map (\<lambda>a. the (entry_at (elements m) (Ptr a))) xs)"
    by (rule those_map_Some)
  then show ?thesis
    by (simp add: entries_def all_nodes_wf[OF wf] comp_def)
qed

lemma entries_same:
  assumes wf: "wf_list (elements m) xs" and wf': "wf_list (elements m') xs'"
    and ms: "mset xs' = mset xs"
    and pay: "\<forall>a \<in> set xs. payloads (elements m') a = payloads (elements m) a"
  shows "entries m \<noteq> None \<and> map_option mset (entries m') = map_option mset (entries m) \<and>
         (xs' = xs \<longrightarrow> entries m' = entries m)"
proof -
  let ?f = "\<lambda>a. the (entry_at (elements m) (Ptr a))"
  let ?f' = "\<lambda>a. the (entry_at (elements m') (Ptr a))"
  have sx: "set xs' = set xs" using ms by (rule mset_eq_setD)
  have eq: "\<forall>a \<in> set xs. ?f' a = ?f a" using pay by (simp add: entry_at_payloads)
  have "map ?f' xs' = map ?f xs'" using eq sx by simp
  then have e': "entries m' = Some (map ?f xs')" using entries_wf[OF wf'] by simp
  have e: "entries m = Some (map ?f xs)" by (rule entries_wf[OF wf])
  have "mset (map ?f xs') = mset (map ?f xs)" using ms by (metis mset_map)
  with e e' show ?thesis by auto
qed

lemma allocate_wf:
  assumes wf: "wf_list l xs"
  shows "wf_list (snd (allocate l)) xs \<and>
         payloads (snd (allocate l)) = (payloads l)(fresh l \<mapsto> None) \<and>
         fresh (snd (allocate l)) = Suc (fresh l) \<and> l_size (snd (allocate l)) = l_size l \<and>
         (\<forall>a \<in> set xs. payloads (snd (allocate l)) a = payloads l a)"
proof -
  from wf obtain h t where hd: "l_head l = Ptr h" and tl: "l_tail l = Ptr t"
    and d0: "distinct (h # xs @ [t])" and li0: "linked (nxt l) (prv l) (h # xs @ [t])"
    and fr: "\<forall>a \<in> set (h # xs @ [t]). a < fresh l"
    and co: "\<forall>a \<in> set xs. constructed l a"
    using wf_listD by blast
  let ?l = "snd (allocate l)"
  have st: "store ?l = (store l)(fresh l \<mapsto> raw_node)" and fr': "fresh ?l = Suc (fresh l)"
    and ht: "l_head ?l = l_head l" "l_tail ?l = l_tail l" "l_size ?l = l_size l"
    by (simp_all add: allocate_def)
  have nf: "\<And>a. a \<in> set (h # xs @ [t]) \<Longrightarrow> a \<noteq> fresh l" using fr by auto
  have N: "\<And>a. a \<in> set (h # xs @ [t]) \<Longrightarrow> nxt ?l a = nxt l a"
    using nf by (simp add: nxt_def st)
  have P: "\<And>a. a \<in> set (h # xs @ [t]) \<Longrightarrow> prv ?l a = prv l a"
    using nf by (simp add: prv_def st)
  have Y: "\<And>a. a \<in> set (h # xs @ [t]) \<Longrightarrow> payloads ?l a = payloads l a"
    using nf by (simp add: payloads_def st)
  have li: "linked (nxt ?l) (prv ?l) (h # xs @ [t])"
    using li0 by (subst linked_cong[of _ "nxt ?l" "nxt l" "prv ?l" "prv l"])
      (auto dest!: in_set_butlastD in_tl_set intro: N P)
  have "wf_list ?l xs"
  proof (rule wf_listI)
    show "l_head ?l = Ptr h" using ht hd by simp
    show "l_tail ?l = Ptr t" using ht tl by simp
    show "distinct (h # xs @ [t])" by (rule d0)
    show "linked (nxt ?l) (prv ?l) (h # xs @ [t])" by (rule li)
    show "\<And>a. a \<in> set (h # xs @ [t]) \<Longrightarrow> a < fresh ?l" using fr fr' by auto
    show "\<And>a. a \<in> set xs \<Longrightarrow> constructed ?l a" using co Y by (simp add: constructed_def)
  qed
  moreover have "payloads ?l = (payloads l)(fresh l \<mapsto> None)"
    by (auto simp: payloads_def st raw_node_def fun_eq_iff)
  ultimately show ?thesis using fr' ht Y by simp
qed

section \<open>The claims\<close>

text \<open>
  Claim C1 (bucket partition invariant after every sequence of insert, emplace and erase).
  The code does not keep it. In the default map with the identity hash, \<open>insert\<close> of
  keys 1 and 2 gives a state that satisfies the invariant: bucket 1 is the range from node
  2 to node 3 and bucket 2 the range from node 3 to the list end. \<open>erase\<close> of the entry
  with key 2 resets bucket 2 and deallocates node 3, but bucket 1 still ends at node 3:
  \<open>erase\<close> only repairs the bucket of the erased entry, never the \<open>end\<close> of the bucket
  that precedes it in the list (the repair that \<open>insert\<close> and \<open>emplace\<close> do make for
  the preceding bucket). The range of bucket 1 can no longer be walked, and a lookup of
  key 17, which belongs to bucket 1, runs past the last entry and reads the payload of the
  tail sentinel.
\<close>

theorem erase_breaks_partition_invariant:
  "case insert_range (UnorderedMap_init INIT_BUCKET_SIZE id (=)) [(1::nat, 10::nat), (2, 20)] of
     Some (Inr u, m) \<Rightarrow>
       partition_invariant m \<and>
       bucket_at (buckets m) 1 = Inr \<lparr>b_begin = Ptr 2, b_end = Ptr 3\<rparr> \<and>
       UnorderedMap_find m 2 = Some (Inr (Ptr 3)) \<and>
       (case UnorderedMap_erase m (Ptr 3) of
          (Inr after, m') \<Rightarrow>
            \<not> partition_invariant m' \<and>
            bucket_at (buckets m') 1 = Inr \<lparr>b_begin = Ptr 2, b_end = Ptr 3\<rparr> \<and>
            store (elements m') 3 = None \<and>
            bucket_range m' 1 = None \<and>
            UnorderedMap_find m' 17 = Some (Inl SentinelPayload)
        | _ \<Rightarrow> False)
   | _ \<Rightarrow> False"
  by code_simp

text \<open>
  Claim C2 (\<open>find(k)\<close> returns an entry with key \<open>k\<close> exactly when \<open>k\<close> was inserted
  and not erased). The code does not do this. In a map with two buckets and the identity
  hash, the fourth of the inserts of keys 0, 1, 2, 3 rehashes to four buckets; \<open>rehash\<close>
  records \<open>begin\<close> of a bucket before it moves the bucket's first node in front of that
  position, so bucket 1 becomes the empty range from node 4 to node 4 although the entry
  with key 1 is still in the list. No key was erased, and \<open>find(1)\<close> returns \<open>end()\<close>.
\<close>

theorem find_misses_live_key:
  "case insert_range (UnorderedMap_init 2 id (=))
          [(0::nat, 0::nat), (1, 10), (2, 20), (3, 30)] of
     Some (Inr u, m) \<Rightarrow>
       entries m = Some [(0, 0), (1, 10), (2, 20), (3, 30)] \<and>
       bucket_count m = 4 \<and>
       bucket_at (buckets m) 1 = Inr \<lparr>b_begin = Ptr 4, b_end = Ptr 4\<rparr> \<and>
       UnorderedMap_find m 1 = Some (Inr (UnorderedMap_end m))
   | _ \<Rightarrow> False"
  by code_simp

text \<open>
  Claim C3 (inserting a key that is present leaves \<open>size()\<close> unchanged and returns
  \<open>false\<close>). The code does not do this. In a map with two buckets and the identity hash
  that holds keys 1, 3 and 0, a second \<open>insert\<close> (or \<open>emplace\<close>) of key 0 first
  rehashes to four buckets, after which bucket 0 is the empty range from node 2 to node 2;
  the scan finds nothing, a second entry with key 0 is linked in, the call returns
  \<open>true\<close> and \<open>size()\<close> is 4.
\<close>

theorem insert_same_key_twice_duplicates:
  "case insert_range (UnorderedMap_init 2 id (=)) [(1::nat, 10::nat), (3, 30), (0, 0)] of
     Some (Inr u, m) \<Rightarrow>
       entries m = Some [(1, 10), (3, 30), (0, 0)] \<and> UnorderedMap_size m = 3 \<and>
       (case UnorderedMap_insert m (0, 99) of
          Some (Inr (it, inserted), m') \<Rightarrow>
            inserted \<and> UnorderedMap_size m' = 4 \<and>
            bucket_count m' = 4 \<and>
            bucket_at (buckets m') 0 = Inr \<lparr>b_begin = Ptr 2, b_end = Ptr 2\<rparr> \<and>
            entries m' = Some [(0, 0), (0, 99), (1, 10), (3, 30)]
        | _ \<Rightarrow> False) \<and>
       (case UnorderedMap_emplace m Inr (0, 99) of
          Some (Inr (it, inserted), m') \<Rightarrow>
            inserted \<and> UnorderedMap_size m' = 4 \<and>
            entries m' = Some [(0, 0), (0, 99), (1, 10), (3, 30)]
        | _ \<Rightarrow> False)
   | _ \<Rightarrow> False"
  by code_simp

text \<open>
  Claim C4 (\<open>rehash(n)\<close> keeps the entries and the result of \<open>find\<close> for every present
  key, and \<open>bucket_count() >= n\<close>). The bucket count and the entries are as claimed, the
  lookups are not. In a map with two buckets and the identity hash that holds keys 1 and 0
  (in this list order), \<open>find(0)\<close> returns the entry. \<open>rehash(4)\<close> takes \<open>begin\<close> of
  bucket 0 from the cursor, which is at the node of key 1, then moves the node of key 0 in
  front of it and takes \<open>end\<close> from the cursor, which is at the node of key 1 again. Bucket
  0 is the empty range from node 2 to node 2 and \<open>find(0)\<close> returns \<open>end()\<close>.
\<close>

theorem rehash_hides_present_key:
  "case insert_range (UnorderedMap_init 2 id (=)) [(1::nat, 10::nat), (0, 0)] of
     Some (Inr u, m) \<Rightarrow>
       partition_invariant m \<and> entries m = Some [(1, 10), (0, 0)] \<and>
       UnorderedMap_find m 0 = Some (Inr (Ptr 3)) \<and>
       (case rehash m 4 of
          Some (Inr u', m') \<Rightarrow>
            bucket_count m' = 4 \<and> entries m' = Some [(0, 0), (1, 10)] \<and>
            bucket_at (buckets m') 0 = Inr \<lparr>b_begin = Ptr 2, b_end = Ptr 2\<rparr> \<and>
            UnorderedMap_find m' 0 = Some (Inr (UnorderedMap_end m'))
        | _ \<Rightarrow> False)
   | _ \<Rightarrow> False"
  by code_simp

text \<open>
  Claim C5 (an \<open>insert\<close> or \<open>emplace\<close> on a map whose load factor exceeds the maximum
  of 1.0 performs \<open>rehash(bucket_count * 2)\<close> before it computes the bucket index of the
  new entry, so that the entry is placed using the bucket count after the rehash). The
  code does rehash first and does compute the index from the new bucket count, but the
  entry is not placed in the bucket of that index. In the map with two buckets that holds
  keys 0, 2, 1 (in list order), \<open>insert\<close> of key 5 rehashes to four buckets and links
  the entry in, yet the range of bucket \<open>5 mod 4 = 1\<close> is empty afterwards and
  \<open>find(5)\<close> returns \<open>end()\<close>: \<open>rehash\<close> left bucket 1 as an empty range in front
  of which the node is linked. \<open>emplace\<close> of key 6 rehashes to four buckets, scans
  bucket \<open>6 mod 4 = 2\<close>, which ends at the list end, meets its own new node there,
  erases it and returns \<open>false\<close>: key 6 is not in the map. The default map with the
  seventeen keys 0, ..., 16 behaves the same way for \<open>insert\<close> of key 33 and
  \<open>emplace\<close> of key 48 after its rehash to 32 buckets.
\<close>

theorem overloaded_insert_misplaces_entry:
  "map_option fst three_inserts = Some (Inr ()) \<and>
   entries overloaded_small = Some [(0, 0), (2, 20), (1, 10)] \<and>
   bucket_count overloaded_small = 2 \<and>
   dbl_gt (load_factor overloaded_small) max_load_factor \<and>
   (case UnorderedMap_insert overloaded_small (5, 50) of
      Some (Inr (it, inserted), m') \<Rightarrow>
        inserted \<and> bucket_count m' = 4 \<and> get_bucket_index m' 5 = 1 \<and>
        entries m' = Some [(0, 0), (1, 10), (5, 50), (2, 20)] \<and>
        bucket_range m' 1 = Some [] \<and>
        UnorderedMap_find m' 5 = Some (Inr (UnorderedMap_end m'))
    | _ \<Rightarrow> False) \<and>
   (case UnorderedMap_emplace overloaded_small Inr (6, 60) of
      Some (Inr (it, inserted), m') \<Rightarrow>
        \<not> inserted \<and> bucket_count m' = 4 \<and> get_bucket_index m' 6 = 2 \<and>
        entries m' = Some [(0, 0), (1, 10), (2, 20)] \<and>
        store (elements m') (case it of Ptr a \<Rightarrow> a | Null \<Rightarrow> 0) = None \<and>
        UnorderedMap_find m' 6 = Some (Inr (UnorderedMap_end m'))
    | _ \<Rightarrow> False) \<and>
   map_option fst seventeen_inserts = Some (Inr ()) \<and>
   bucket_count overloaded_map = 16 \<and> UnorderedMap_size overloaded_map = 17 \<and>
   (case UnorderedMap_insert overloaded_map (33, 0) of
      Some (Inr (it, inserted), m') \<Rightarrow>
        inserted \<and> bucket_count m' = 32 \<and> get_bucket_index m' 33 = 1 \<and>
        bucket_range m' 1 = Some [] \<and>
        UnorderedMap_find m' 33 = Some (Inr (UnorderedMap_end m'))
    | _ \<Rightarrow> False) \<and>
   (case UnorderedMap_emplace overloaded_map Inr (48, 0) of
      Some (Inr (it, inserted), m') \<Rightarrow>
        \<not> inserted \<and> bucket_count m' = 32 \<and> UnorderedMap_size m' = 17 \<and>
        UnorderedMap_find m' 48 = Some (Inr (UnorderedMap_end m'))
    | _ \<Rightarrow> False)"
  by code_simp

text \<open>
  Claim C6 (\<open>at\<close> raises key-not-found exactly for absent keys, \<open>find\<close> and
  \<open>operator[]\<close> never raise, and \<open>operator[]\<close> inserts a missing key with a default
  value and returns a reference to the value). The code does not do this. In the default
  map with the identity hash, \<open>m[1]\<close> inserts key 1 into bucket 1, whose range then ends
  at the list end. \<open>m[17]\<close> goes through \<open>emplace\<close>, which links the new node in at
  the list tail before it scans bucket 1; the scan runs up to the list end, reaches the new
  node itself, takes it for an existing entry with an equal key, erases it and returns the
  iterator to the erased node. \<open>operator[]\<close> then reads \<open>it->second\<close> through that
  iterator. Key 17 is not in the map afterwards. The second run shows \<open>at\<close> raising
  key-not-found for key 1, which is present (the bucket that \<open>rehash\<close> left empty).
\<close>

theorem subscript_returns_dangling_reference:
  "(case UnorderedMap_subscript (UnorderedMap_init INIT_BUCKET_SIZE id (=)) (0::nat) (1::nat) of
      Some (Inr (it, v), m) \<Rightarrow>
        v = 0 \<and> entries m = Some [(1, 0)] \<and>
        (case UnorderedMap_subscript m 0 17 of
           Some (r, m') \<Rightarrow>
             r = Inl DanglingDeref \<and> entries m' = Some [(1, 0)] \<and>
             UnorderedMap_find m' 17 = Some (Inr (UnorderedMap_end m'))
         | None \<Rightarrow> False)
    | _ \<Rightarrow> False) \<and>
   (case insert_range (UnorderedMap_init 2 id (=))
           [(0::nat, 0::nat), (1, 10), (2, 20), (3, 30)] of
      Some (Inr u, m) \<Rightarrow>
        entries m = Some [(0, 0), (1, 10), (2, 20), (3, 30)] \<and>
        UnorderedMap_at m 1 = Some (Inl KeyNotFound)
    | _ \<Rightarrow> False)"
  by code_simp

text \<open>
  Claim C7 (when the constructor of the entry throws during \<open>emplace\<close>, the error
  propagates, the node is deallocated and the map is unchanged). The error does propagate,
  but the rest fails on the code, which has no handler anywhere: a failed construction in
  the fresh default map leaves the raw node at address 2 allocated, and a failed
  construction in an overloaded map (three entries, two buckets) leaves the map rehashed
  to four buckets, because the load-factor check runs before the entry is constructed.
\<close>

theorem emplace_failure_leaks_and_rehashes:
  "(case UnorderedMap_emplace (UnorderedMap_init 16 id (=)) failing_ctor () of
      Some (r, m') \<Rightarrow>
        r = Inl ConstructFailed \<and> store (elements m') 2 = Some raw_node \<and>
        fresh (elements m') = 3
    | None \<Rightarrow> False) \<and>
   store (elements (UnorderedMap_init 16 id (=) :: (nat, nat) UnorderedMap)) 2 = None \<and>
   fresh (elements (UnorderedMap_init 16 id (=) :: (nat, nat) UnorderedMap)) = 2 \<and>
   (case insert_range (UnorderedMap_init 2 id (=)) [(0::nat, 0::nat), (1, 10), (2, 20)] of
      Some (Inr u, m) \<Rightarrow>
        bucket_count m = 2 \<and>
        (case UnorderedMap_emplace m failing_ctor () of
           Some (r, m') \<Rightarrow> r = Inl ConstructFailed \<and> bucket_count m' = 4
         | None \<Rightarrow> False)
    | _ \<Rightarrow> False)"
  by code_simp

text \<open>
  Claim C7 as amended: on a map whose element list is well formed, when the constructor
  throws \<open>e\<close>, \<open>emplace\<close> ends with \<open>e\<close>; the new entry is never linked in, and the
  map keeps the same entries (the same nodes with the same payloads) and the same size.
  What does not survive is the rest of the claim: the raw node allocated for the entry
  stays allocated, and the bucket structure is unchanged only when the load factor did not
  exceed the maximum (then the list order is unchanged too); otherwise the load-factor
  check has already run \<open>rehash\<close> with twice the bucket count, the bucket count is
  \<open>max (2 * bucket_count) size\<close> and the entries are the same up to their order in the
  list.
\<close>

theorem emplace_failed_construction:
  fixes m :: "('k, 'v) UnorderedMap"
  assumes c: "ctor args = Inl e" and wf: "wf_list (elements m) xs"
  shows "\<exists>m' xs'. UnorderedMap_emplace m ctor args = Some (Inl e, m') \<and>
           wf_list (elements m') xs' \<and> mset xs' = mset xs \<and>
           entries m \<noteq> None \<and> map_option mset (entries m') = map_option mset (entries m) \<and>
           UnorderedMap_size m' = UnorderedMap_size m \<and>
           payloads (elements m') = (payloads (elements m))(fresh (elements m) \<mapsto> None) \<and>
           fresh (elements m') = Suc (fresh (elements m)) \<and>
           (if dbl_gt (load_factor m) max_load_factor
            then bucket_count m' = max (bucket_count m * 2) (UnorderedMap_size m) \<and>
                 (\<exists>m1. rehash m (bucket_count m * 2) = Some (Inr (), m1) \<and>
                       m' = m1\<lparr>elements := snd (allocate (elements m1))\<rparr>)
            else m' = m\<lparr>elements := snd (allocate (elements m))\<rparr> \<and>
                 buckets m' = buckets m \<and> xs' = xs \<and> entries m' = entries m)"
proof -
  have step: "\<And>m1. check_rehash m = Some (Inr (), m1) \<Longrightarrow>
      UnorderedMap_emplace m ctor args =
        Some (Inl e, m1\<lparr>elements := snd (allocate (elements m1))\<rparr>)"
    using c by (simp add: UnorderedMap_emplace_def List_emplace_def Let_def split: prod.splits)
  have fin: "\<And>m1 xs1. wf_list (elements m1) xs1 \<Longrightarrow> mset xs1 = mset xs \<Longrightarrow>
      payloads (elements m1) = payloads (elements m) \<Longrightarrow>
      fresh (elements m1) = fresh (elements m) \<Longrightarrow>
      l_size (elements m1) = l_size (elements m) \<Longrightarrow>
      (let m' = m1\<lparr>elements := snd (allocate (elements m1))\<rparr> in
         wf_list (elements m') xs1 \<and> entries m \<noteq> None \<and>
         map_option mset (entries m') = map_option mset (entries m) \<and>
         (xs1 = xs \<longrightarrow> entries m' = entries m) \<and>
         UnorderedMap_size m' = UnorderedMap_size m \<and>
         payloads (elements m') = (payloads (elements m))(fresh (elements m) \<mapsto> None) \<and>
         fresh (elements m') = Suc (fresh (elements m)))"
  proof -
    fix m1 :: "('k, 'v) UnorderedMap" and xs1
    assume wf1: "wf_list (elements m1) xs1" and ms: "mset xs1 = mset xs"
      and pay: "payloads (elements m1) = payloads (elements m)"
      and fr: "fresh (elements m1) = fresh (elements m)"
      and sz: "l_size (elements m1) = l_size (elements m)"
    let ?m' = "m1\<lparr>elements := snd (allocate (elements m1))\<rparr>"
    note a = allocate_wf[OF wf1]
    have a1: "wf_list (snd (allocate (elements m1))) xs1"
      and a2: "payloads (snd (allocate (elements m1))) =
                 (payloads (elements m1))(fresh (elements m1) \<mapsto> None)"
      and a3: "fresh (snd (allocate (elements m1))) = Suc (fresh (elements m1))"
      and a4: "l_size (snd (allocate (elements m1))) = l_size (elements m1)"
      and a5: "\<forall>a \<in> set xs1. payloads (snd (allocate (elements m1))) a =
                 payloads (elements m1) a"
      using a by blast+
    have wf': "wf_list (elements ?m') xs1" using a1 by simp
    have sx: "set xs1 = set xs" using ms by (rule mset_eq_setD)
    have py: "\<forall>a \<in> set xs. payloads (elements ?m') a = payloads (elements m) a"
      using a5 unfolding sx pay by simp
    have p': "payloads (elements ?m') = (payloads (elements m))(fresh (elements m) \<mapsto> None)"
      using a2 unfolding pay fr by simp
    have f': "fresh (elements ?m') = Suc (fresh (elements m))"
      using a3 unfolding fr by simp
    have s': "UnorderedMap_size ?m' = UnorderedMap_size m"
      using a4 sz by (simp add: UnorderedMap_size_def List_size_def)
    from entries_same[OF wf wf' ms py] wf' p' f' s'
    show "(let m' = ?m' in
         wf_list (elements m') xs1 \<and> entries m \<noteq> None \<and>
         map_option mset (entries m') = map_option mset (entries m) \<and>
         (xs1 = xs \<longrightarrow> entries m' = entries m) \<and>
         UnorderedMap_size m' = UnorderedMap_size m \<and>
         payloads (elements m') = (payloads (elements m))(fresh (elements m) \<mapsto> None) \<and>
         fresh (elements m') = Suc (fresh (elements m)))"
      unfolding Let_def by blast
  qed
  show ?thesis
  proof (cases "dbl_gt (load_factor m) max_load_factor")
    case True
    from rehash_wf[OF wf, of "bucket_count m * 2"] obtain m1 xs1 where
      rh: "rehash m (bucket_count m * 2) = Some (Inr (), m1)"
      and wf1: "wf_list (elements m1) xs1" and ms: "mset xs1 = mset xs"
      and pay: "payloads (elements m1) = payloads (elements m)"
      and fr: "fresh (elements m1) = fresh (elements m)" by blast
    note p = rehash_props[OF rh]
    have cr: "check_rehash m = Some (Inr (), m1)"
      using True rh by (simp add: check_rehash_def bucket_count_def)
    let ?m' = "m1\<lparr>elements := snd (allocate (elements m1))\<rparr>"
    have bc: "bucket_count ?m' = max (bucket_count m * 2) (UnorderedMap_size m)"
      using p by (simp add: bucket_count_def UnorderedMap_size_def List_size_def)
    from fin[OF wf1 ms pay fr] p step[OF cr] bc rh True
    show ?thesis
      by (intro exI[of _ ?m'] exI[of _ xs1]) (simp add: Let_def ms)
  next
    case False
    have cr: "check_rehash m = Some (Inr (), m)"
      using False by (simp add: check_rehash_def)
    let ?m' = "m\<lparr>elements := snd (allocate (elements m))\<rparr>"
    from fin[OF wf, of] step[OF cr] False
    show ?thesis
      by (intro exI[of _ ?m'] exI[of _ xs]) (simp add: Let_def)
  qed
qed

text \<open>
  Both branches on concrete maps: the map with two buckets that holds keys 0, 2, 1 is
  rehashed to four buckets and keeps its three entries, in the order 0, 1, 2; the empty
  default map is not rehashed. In both the raw node stays allocated.
\<close>

theorem emplace_failed_construction_witness:
  "failing_ctor () = Inl ConstructFailed \<and>
   wf_list (elements overloaded_small) [2, 4, 3] \<and>
   dbl_gt (load_factor overloaded_small) max_load_factor \<and>
   entries overloaded_small = Some [(0, 0), (2, 20), (1, 10)] \<and>
   (\<exists>m' xs'. UnorderedMap_emplace overloaded_small failing_ctor () = Some (Inl ConstructFailed, m') \<and>
           wf_list (elements m') xs' \<and> mset xs' = mset [2, 4, 3] \<and>
           entries overloaded_small \<noteq> None \<and>
           map_option mset (entries m') = map_option mset (entries overloaded_small) \<and>
           UnorderedMap_size m' = UnorderedMap_size overloaded_small \<and>
           payloads (elements m') =
             (payloads (elements overloaded_small))(fresh (elements overloaded_small) \<mapsto> None) \<and>
           fresh (elements m') = Suc (fresh (elements overloaded_small)) \<and>
           (if dbl_gt (load_factor overloaded_small) max_load_factor
            then bucket_count m' =
                   max (bucket_count overloaded_small * 2) (UnorderedMap_size overloaded_small) \<and>
                 (\<exists>m1. rehash overloaded_small (bucket_count overloaded_small * 2)
                         = Some (Inr (), m1) \<and>
                       m' = m1\<lparr>elements := snd (allocate (elements m1))\<rparr>)
            else m' = overloaded_small\<lparr>elements := snd (allocate (elements overloaded_small))\<rparr> \<and>
                 buckets m' = buckets overloaded_small \<and> xs' = [2, 4, 3] \<and>
                 entries m' = entries overloaded_small)) \<and>
   (case UnorderedMap_emplace overloaded_small failing_ctor () of
      Some (r, m') \<Rightarrow>
        r = Inl ConstructFailed \<and> entries m' = Some [(0, 0), (1, 10), (2, 20)] \<and>
        UnorderedMap_size m' = 3 \<and> bucket_count m' = 4 \<and>
        store (elements m') 5 = Some raw_node \<and> wf_list (elements m') [2, 3, 4]
    | None \<Rightarrow> False) \<and>
   wf_list (elements (UnorderedMap_init INIT_BUCKET_SIZE id (=) :: (nat, nat) UnorderedMap)) [] \<and>
   (case UnorderedMap_emplace (UnorderedMap_init INIT_BUCKET_SIZE id (=)) failing_ctor () of
      Some (r, m') \<Rightarrow>
        r = Inl ConstructFailed \<and> entries m' = Some [] \<and> UnorderedMap_size m' = 0 \<and>
        buckets m' = buckets (UnorderedMap_init INIT_BUCKET_SIZE id (=) :: (nat, nat) UnorderedMap) \<and>
        store (elements m') 2 = Some raw_node \<and> wf_list (elements m') []
    | None \<Rightarrow> False)"
proof -
  have a: "failing_ctor () = Inl ConstructFailed"
    by (simp add: failing_ctor_def)
  have b: "wf_list (elements overloaded_small) [2, 4, 3]"
    by code_simp
  have o: "dbl_gt (load_factor overloaded_small) max_load_factor"
    by code_simp
  have e: "entries overloaded_small = Some [(0, 0), (2, 20), (1, 10)]"
    by code_simp
  have r: "case UnorderedMap_emplace overloaded_small failing_ctor () of
      Some (r, m') \<Rightarrow>
        r = Inl ConstructFailed \<and> entries m' = Some [(0, 0), (1, 10), (2, 20)] \<and>
        UnorderedMap_size m' = 3 \<and> bucket_count m' = 4 \<and>
        store (elements m') 5 = Some raw_node \<and> wf_list (elements m') [2, 3, 4]
    | None \<Rightarrow> False"
    by code_simp
  have b0: "wf_list (elements (UnorderedMap_init INIT_BUCKET_SIZE id (=) :: (nat, nat) UnorderedMap)) []"
    by code_simp
  have r0: "case UnorderedMap_emplace (UnorderedMap_init INIT_BUCKET_SIZE id (=)) failing_ctor () of
      Some (r, m') \<Rightarrow>
        r = Inl ConstructFailed \<and> entries m' = Some [] \<and> UnorderedMap_size m' = 0 \<and>
        buckets m' = buckets (UnorderedMap_init INIT_BUCKET_SIZE id (=) :: (nat, nat) UnorderedMap) \<and>
        store (elements m') 2 = Some raw_node \<and> wf_list (elements m') []
    | None \<Rightarrow> False"
    by code_simp
  note inst = emplace_failed_construction[of failing_ctor "()" ConstructFailed
      overloaded_small "[2, 4, 3]", OF a b]
  show ?thesis
    by (intro conjI) (fact a b o e inst r b0 r0)+
qed

text \<open>
  Claim C8 (\<open>find\<close> on a map with bucket count 0 computes index 0, scans without an
  out-of-bounds access to the bucket table and returns the end sentinel). The code does
  compute index 0, and then reads \<open>buckets[0]\<close> of the empty table: \<open>get_bucket_index\<close>
  guards the division, nothing guards the subscript. The map constructed with
  \<open>UnorderedMap(0)\<close> is such a state, for every hash function, equality and key.
\<close>

theorem find_zero_buckets_out_of_bounds:
  "bucket_count (UnorderedMap_init 0 h eq) = 0 \<and>
   get_bucket_index (UnorderedMap_init 0 h eq) k = 0 \<and>
   UnorderedMap_find (UnorderedMap_init 0 h eq) k = Some (Inl OutOfBounds)"
  by (simp add: UnorderedMap_find_def get_bucket_index_def UnorderedMap_init_def
      empty_buckets_def bucket_at_def bucket_count_def Let_def)

text \<open>
  Claim C9 (move construction transfers list and table without per-entry work and leaves
  the source behaving as an empty map under every public operation). The last part fails
  on the code: on an empty map \<open>begin()\<close> returns an iterator (equal to \<open>end()\<close>), on
  the moved-from map \<open>begin()\<close> dereferences the null \<open>head_\<close> that \<open>List(List&&)\<close>
  leaves behind.
\<close>

theorem moved_from_map_is_not_an_empty_map:
  "UnorderedMap_begin (UnorderedMap_init 16 id (=) :: (nat, nat) UnorderedMap) = Inr (Ptr 1) \<and>
   UnorderedMap_end (UnorderedMap_init 16 id (=) :: (nat, nat) UnorderedMap) = Ptr 1 \<and>
   UnorderedMap_begin
       (snd (UnorderedMap_move (UnorderedMap_init 16 id (=) :: (nat, nat) UnorderedMap)))
     = Inl NullDeref"
  by code_simp

text \<open>
  Claim C9 as amended: the new map is the old state of the source, node for node (the
  store and the allocator are untouched, so no entry is copied, moved, constructed or
  destroyed); the source is left with null sentinels, size 0 and no buckets. On the source
  \<open>size()\<close>, \<open>empty()\<close>, \<open>clear()\<close> and \<open>erase(end())\<close> behave as on an empty
  map: \<open>size()\<close> is 0, \<open>empty()\<close> holds, and \<open>clear()\<close> and \<open>erase(end())\<close>
  return and leave the state as it is, which is what they do on the empty map constructed
  with \<open>n\<close> buckets. \<open>begin()\<close> does not: it dereferences the null head.
\<close>

theorem move_leaves_source_hollow:
  fixes m :: "('k, 'v) UnorderedMap"
  shows "fst (UnorderedMap_move m) = m \<and>
   store (elements (snd (UnorderedMap_move m))) = store (elements m) \<and>
   fresh (elements (snd (UnorderedMap_move m))) = fresh (elements m) \<and>
   l_head (elements (snd (UnorderedMap_move m))) = Null \<and>
   l_tail (elements (snd (UnorderedMap_move m))) = Null \<and>
   buckets (snd (UnorderedMap_move m)) = [] \<and>
   UnorderedMap_size (snd (UnorderedMap_move m)) = 0 \<and>
   UnorderedMap_empty (snd (UnorderedMap_move m)) \<and>
   bucket_count (snd (UnorderedMap_move m)) = 0 \<and>
   UnorderedMap_clear (snd (UnorderedMap_move m)) = Some (Inr (), snd (UnorderedMap_move m)) \<and>
   UnorderedMap_erase (snd (UnorderedMap_move m)) (UnorderedMap_end (snd (UnorderedMap_move m)))
     = (Inr (UnorderedMap_end (snd (UnorderedMap_move m))), snd (UnorderedMap_move m)) \<and>
   UnorderedMap_begin (snd (UnorderedMap_move m)) = Inl NullDeref \<and>
   UnorderedMap_size ((UnorderedMap_init n h eq :: ('k, 'v) UnorderedMap)) = 0 \<and>
   UnorderedMap_empty ((UnorderedMap_init n h eq :: ('k, 'v) UnorderedMap)) \<and>
   UnorderedMap_clear ((UnorderedMap_init n h eq :: ('k, 'v) UnorderedMap)) = Some (Inr (), (UnorderedMap_init n h eq :: ('k, 'v) UnorderedMap)) \<and>
   UnorderedMap_erase ((UnorderedMap_init n h eq :: ('k, 'v) UnorderedMap)) (UnorderedMap_end ((UnorderedMap_init n h eq :: ('k, 'v) UnorderedMap)))
     = (Inr (UnorderedMap_end ((UnorderedMap_init n h eq :: ('k, 'v) UnorderedMap))), (UnorderedMap_init n h eq :: ('k, 'v) UnorderedMap))"
proof -
  have moved: "fst (UnorderedMap_move m) = m \<and>
      store (elements (snd (UnorderedMap_move m))) = store (elements m) \<and>
      fresh (elements (snd (UnorderedMap_move m))) = fresh (elements m) \<and>
      l_head (elements (snd (UnorderedMap_move m))) = Null \<and>
      l_tail (elements (snd (UnorderedMap_move m))) = Null \<and>
      buckets (snd (UnorderedMap_move m)) = [] \<and>
      UnorderedMap_size (snd (UnorderedMap_move m)) = 0 \<and>
      UnorderedMap_empty (snd (UnorderedMap_move m)) \<and>
      bucket_count (snd (UnorderedMap_move m)) = 0 \<and>
      UnorderedMap_clear (snd (UnorderedMap_move m))
        = Some (Inr (), snd (UnorderedMap_move m)) \<and>
      UnorderedMap_erase (snd (UnorderedMap_move m))
          (UnorderedMap_end (snd (UnorderedMap_move m)))
        = (Inr (UnorderedMap_end (snd (UnorderedMap_move m))), snd (UnorderedMap_move m)) \<and>
      UnorderedMap_begin (snd (UnorderedMap_move m)) = Inl NullDeref"
    by (simp add: UnorderedMap_move_def List_move_def UnorderedMap_size_def List_size_def
        UnorderedMap_empty_def List_empty_def bucket_count_def UnorderedMap_end_def
        List_end_def UnorderedMap_clear_def List_clear_def empty_buckets_def
        UnorderedMap_erase_def UnorderedMap_begin_def List_begin_def get_next_def node_at_def
        err_bind_def)
  have fresh_size: "UnorderedMap_size ((UnorderedMap_init n h eq :: ('k, 'v) UnorderedMap)) = 0 \<and>
      UnorderedMap_empty ((UnorderedMap_init n h eq :: ('k, 'v) UnorderedMap))"
    by (simp add: UnorderedMap_size_def List_size_def UnorderedMap_empty_def List_empty_def
        UnorderedMap_init_def List_init_def Let_def)
  have fresh_erase: "UnorderedMap_erase ((UnorderedMap_init n h eq :: ('k, 'v) UnorderedMap))
          (UnorderedMap_end ((UnorderedMap_init n h eq :: ('k, 'v) UnorderedMap)))
        = (Inr (UnorderedMap_end ((UnorderedMap_init n h eq :: ('k, 'v) UnorderedMap))), (UnorderedMap_init n h eq :: ('k, 'v) UnorderedMap))"
    by (simp add: UnorderedMap_erase_def)
  have fresh_clear: "UnorderedMap_clear ((UnorderedMap_init n h eq :: ('k, 'v) UnorderedMap))
      = Some (Inr (), (UnorderedMap_init n h eq :: ('k, 'v) UnorderedMap))"
    by (simp add: UnorderedMap_clear_def List_clear_def UnorderedMap_init_def List_init_def
        Let_def get_next_def node_at_def err_bind_def clear_loop.simps set_next_def
        set_prev_def put_node_def empty_buckets_def List_end_def raw_node_def fun_eq_iff)
  from moved fresh_size fresh_erase fresh_clear show ?thesis by simp
qed

text \<open>
  Claim C10 (\<open>erase(end())\<close> is a no-op on every map state): it returns the end
  iterator and the state it leaves is the state it found, so entries, \<open>size()\<close>,
  \<open>bucket_count()\<close> and every bucket descriptor are the same; \<open>List::erase\<close> treats its
  own end iterator the same way.
\<close>

theorem erase_end_is_noop:
  "UnorderedMap_erase m (UnorderedMap_end m) = (Inr (UnorderedMap_end m), m) \<and>
   List_erase (elements m) (List_end (elements m)) = (Inr (List_end (elements m)), elements m)"
  by (simp add: UnorderedMap_erase_def List_erase_def)

end
